theory Spec2Isabelle
  imports Main "HOL-Library.AList"
begin

section \<open>Data model of the icon set\<close>

subsection \<open>Property bags\<close>

text \<open>
  Modelled from the spec: the declarations of \<^verbatim>\<open>CommonIconProps\<close> and
  \<^verbatim>\<open>IconifyOptional\<close> (\<^verbatim>\<open>./types\<close>, \<^verbatim>\<open>@iconify/types\<close>) are not among the
  sources. The spec lists the properties of a bag as dimensions (left, top, width,
  height), rotation, the two flip flags and the hidden flag. A bag is a JavaScript object,
  here a partial map from the property keys to values; a value is a number or a boolean.
  A number of the code is an IEEE double; \<open>Num n\<close> stands for the double whose value is
  the integer \<open>n\<close> (see \<open>safeInteger\<close> below for where the arithmetic agrees).

  The order in which \<^verbatim>\<open>for (key in props)\<close> visits the keys is the order of
  \<open>allKeys\<close>; no operation modelled below depends on it.
\<close>

datatype PropKey = PLeft | PTop | PWidth | PHeight | PRotate | PHFlip | PVFlip | PHidden

datatype PropValue = Num int | Flag bool

type_synonym Props = "PropKey \<Rightarrow> PropValue option"

definition allKeys :: "PropKey list" where
  "allKeys = [PLeft, PTop, PWidth, PHeight, PRotate, PHFlip, PVFlip, PHidden]"

definition keysOf :: "Props \<Rightarrow> PropKey list" where
  "keysOf p = filter (\<lambda>k. p k \<noteq> None) allKeys"

text \<open>JavaScript truthiness (\<^verbatim>\<open>if (value)\<close>, \<^verbatim>\<open>!value\<close>) and numeric coercion.\<close>

fun truthy :: "PropValue \<Rightarrow> bool" where
  "truthy (Num n) = (n \<noteq> 0)"
| "truthy (Flag b) = b"

fun toNumber :: "PropValue \<Rightarrow> int" where
  "toNumber (Num n) = n"
| "toNumber (Flag b) = (if b then 1 else 0)"

definition truthyOpt :: "PropValue option \<Rightarrow> bool" where
  "truthyOpt v = (case v of None \<Rightarrow> False | Some x \<Rightarrow> truthy x)"

text \<open>The remainder operator \<^verbatim>\<open>%\<close>: the result takes the sign of the dividend.\<close>

definition jsRem :: "int \<Rightarrow> int \<Rightarrow> int" where
  "jsRem a b = sgn a * (\<bar>a\<bar> mod \<bar>b\<bar>)"

text \<open>
  The doubles of the code add exactly as the integers do when both operands and their sum
  are safe integers, that is, of magnitude at most \<open>2 ^ 53 - 1\<close>
  (\<^verbatim>\<open>Number.MAX_SAFE_INTEGER\<close>); the remainder of such a sum is exact too. Beyond that
  range the code rounds the sum, and a fractional value has no counterpart here. What is
  stated below about the sum of two numbers is stated for safe integers with a safe sum.
\<close>

definition maxSafeInteger :: int where
  "maxSafeInteger = 2 ^ 53 - 1"

definition safeInteger :: "int \<Rightarrow> bool" where
  "safeInteger n \<longleftrightarrow> - maxSafeInteger \<le> n \<and> n \<le> maxSafeInteger"

subsection \<open>Entries, categories, the aggregate\<close>

text \<open>
  A category record is a mutable object compared by identity: it lives in a heap of
  category objects and is referred to by its address (its index in the heap). Objects are
  only ever added to the heap, so an address that was handed out stays valid. A
  \<^verbatim>\<open>Set\<close> is a duplicate-free list in insertion order.
\<close>

type_synonym CategoryRef = nat

record IconCategory =
  title :: string
  count :: int

datatype IconSetIconEntry =
    Icon string Props "string list" "CategoryRef list"
  | Alias string "string list"
  | Variation string Props "string list"

text \<open>The field \<^verbatim>\<open>parent\<close> of an alias or a variation; an icon has none.\<close>

fun parentOf :: "IconSetIconEntry \<Rightarrow> string option" where
  "parentOf (Icon b p cs cats) = None"
| "parentOf (Alias par cs) = Some par"
| "parentOf (Variation par p cs) = Some par"

fun setParent :: "string \<Rightarrow> IconSetIconEntry \<Rightarrow> IconSetIconEntry" where
  "setParent par (Icon b p cs cats) = Icon b p cs cats"
| "setParent par (Alias par0 cs) = Alias par cs"
| "setParent par (Variation par0 p cs) = Variation par p cs"

definition setAdd :: "'a \<Rightarrow> 'a list \<Rightarrow> 'a list" where
  "setAdd x xs = (if x \<in> set xs then xs else xs @ [x])"

fun addChar :: "string \<Rightarrow> IconSetIconEntry \<Rightarrow> IconSetIconEntry" where
  "addChar c (Icon b p cs cats) = Icon b p (setAdd c cs) cats"
| "addChar c (Alias par cs) = Alias par (setAdd c cs)"
| "addChar c (Variation par p cs) = Variation par p (setAdd c cs)"

text \<open>
  The entry store \<^verbatim>\<open>entries\<close> is an object without prototype: an association list
  in the order \<^verbatim>\<open>for (key in entries)\<close> enumerates it. Reading a key is \<open>map_of\<close>,
  writing one is \<open>AList.update\<close> (in place when the key exists, appended otherwise),
  \<^verbatim>\<open>delete\<close> is \<open>AList.delete\<close>. JavaScript enumerates keys that are array
  indices before all others; icon names are taken not to be of that form. The statements
  below that speak of the store's order are about this list.
\<close>

type_synonym Entries = "(string \<times> IconSetIconEntry) list"

record ResolvedIconifyIcon =
  rbody :: string
  rprops :: Props

definition maxIteration :: nat where
  "maxIteration = 6"

section \<open>Resolving an icon\<close>

text \<open>
  The merge of one property of a variation onto the resolved parent (lines 302-327). The
  rotation case is the code's \<^verbatim>\<open>(parent[attr] + value) % 4\<close> for safe integers with a
  safe sum.
\<close>

fun mergeValue :: "PropKey \<Rightarrow> PropValue \<Rightarrow> PropValue \<Rightarrow> PropValue" where
  "mergeValue PRotate pv v = Num (jsRem (toNumber pv + toNumber v) 4)"
| "mergeValue PHFlip pv v = Flag (\<not> truthy pv)"
| "mergeValue PVFlip pv v = Flag (\<not> truthy pv)"
| "mergeValue attr pv v = v"

definition mergeKey :: "Props \<Rightarrow> PropKey \<Rightarrow> ResolvedIconifyIcon \<Rightarrow> ResolvedIconifyIcon" where
  "mergeKey itemProps attr parent =
     (case itemProps attr of
        None \<Rightarrow> parent
      | Some v \<Rightarrow>
          if truthy v then
            (case rprops parent attr of
               None \<Rightarrow> parent\<lparr>rprops := (rprops parent)(attr \<mapsto> v)\<rparr>
             | Some pv \<Rightarrow> parent\<lparr>rprops := (rprops parent)(attr \<mapsto> mergeValue attr pv v)\<rparr>)
          else parent)"

definition mergeProps :: "Props \<Rightarrow> ResolvedIconifyIcon \<Rightarrow> ResolvedIconifyIcon" where
  "mergeProps itemProps parent = fold (mergeKey itemProps) (keysOf itemProps) parent"

function getIcon :: "Entries \<Rightarrow> string \<Rightarrow> nat \<Rightarrow> ResolvedIconifyIcon option" where
  "getIcon es name iteration =
     (case map_of es name of
        None \<Rightarrow> None
      | Some item \<Rightarrow>
          if iteration > maxIteration then None
          else
            (case item of
               Icon b p cs cats \<Rightarrow> Some \<lparr>rbody = b, rprops = p\<rparr>
             | Alias par cs \<Rightarrow> getIcon es par (iteration + 1)
             | Variation par p cs \<Rightarrow>
                 (case getIcon es par (iteration + 1) of
                    None \<Rightarrow> None
                  | Some parent \<Rightarrow> Some (mergeProps p parent))))"
  by pat_completeness auto
termination
  by (relation "measure (\<lambda>(es, name, iteration). Suc maxIteration - iteration)") auto

declare getIcon.simps [simp del]

text \<open>
  \<^verbatim>\<open>resolve(name)\<close> and \<^verbatim>\<open>resolve(name, true)\<close>; the table
  \<^verbatim>\<open>defaultIconProps\<close> of the utilities library is the parameter \<open>defaults\<close>.
\<close>

definition resolve :: "Entries \<Rightarrow> string \<Rightarrow> ResolvedIconifyIcon option" where
  "resolve es name = getIcon es name 0"

definition resolveFull :: "Props \<Rightarrow> Entries \<Rightarrow> string \<Rightarrow> ResolvedIconifyIcon option" where
  "resolveFull defaults es name =
     (case getIcon es name 0 of
        None \<Rightarrow> None
      | Some result \<Rightarrow> Some (result\<lparr>rprops := defaults ++ rprops result\<rparr>))"

section \<open>Adding entries\<close>

definition setItem :: "Entries \<Rightarrow> string \<Rightarrow> IconSetIconEntry \<Rightarrow> bool \<times> Entries" where
  "setItem es name item =
     (let missing = (case parentOf item of None \<Rightarrow> False | Some par \<Rightarrow> map_of es par = None)
      in if missing then (False, es) else (True, AList.update name item es))"

definition setAlias :: "Entries \<Rightarrow> string \<Rightarrow> string \<Rightarrow> bool \<times> Entries" where
  "setAlias es name par = setItem es name (Alias par [])"

definition setVariation :: "Entries \<Rightarrow> string \<Rightarrow> string \<Rightarrow> Props \<Rightarrow> bool \<times> Entries" where
  "setVariation es name par p = setItem es name (Variation par p [])"

section \<open>Removing and renaming entries\<close>

text \<open>The argument \<^verbatim>\<open>removeDependencies: boolean | string\<close>.\<close>

datatype RemoveDependencies = Deps bool | NewParent string

fun isNewParent :: "RemoveDependencies \<Rightarrow> bool" where
  "isNewParent (NewParent p) = True"
| "isNewParent (Deps b) = False"

text \<open>
  The local function \<^verbatim>\<open>del\<close> of \<^verbatim>\<open>remove\<close> with its loop over the store. The
  variables it closes over, the store and the set \<^verbatim>\<open>names\<close>, are passed and returned.
  The first component of the result is the boolean \<^verbatim>\<open>del\<close> returns. The recursion ends
  because \<^verbatim>\<open>del\<close> returns at once above \<open>maxIteration\<close>.
\<close>

function del :: "RemoveDependencies \<Rightarrow> Entries \<times> string list \<Rightarrow> string \<Rightarrow> nat
    \<Rightarrow> bool \<times> Entries \<times> string list"
  and delLoop :: "RemoveDependencies \<Rightarrow> Entries \<times> string list \<Rightarrow> string \<Rightarrow> nat \<Rightarrow> string list
    \<Rightarrow> bool \<times> Entries \<times> string list"
where
  "del rd (es, names) name iteration =
     (if map_of es name = None \<or> iteration > maxIteration \<or> name \<in> set names
      then (False, es, names)
      else
        if rd = Deps True \<or> (iteration = 0 \<and> isNewParent rd)
        then delLoop rd (es, names @ [name]) name iteration (map fst es)
        else (True, es, names @ [name]))"
| "delLoop rd (es, names) name iteration [] = (True, es, names)"
| "delLoop rd (es, names) name iteration (key # keys) =
     (case map_of es key of
        None \<Rightarrow> delLoop rd (es, names) name iteration keys
      | Some item \<Rightarrow>
          if parentOf item = Some name then
            (if rd = Deps True then
               (case del rd (es, names) key (iteration + 1) of
                  (ok, st) \<Rightarrow> if ok then delLoop rd st name iteration keys else (False, st))
             else
               (case rd of
                  NewParent p \<Rightarrow>
                    delLoop rd (AList.update key (setParent p item) es, names) name iteration keys
                | Deps b \<Rightarrow> delLoop rd (es, names) name iteration keys))
          else delLoop rd (es, names) name iteration keys)"
  by pat_completeness auto
termination
  by (relation "measures
        [\<lambda>x. case x of
                Inl (rd, st, name, iteration) \<Rightarrow>
                  if iteration > maxIteration then 0 else 2 * (Suc maxIteration - iteration) + 2
              | Inr (rd, st, name, iteration, keys) \<Rightarrow> 2 * (Suc maxIteration - iteration) + 1,
         \<lambda>x. case x of
                Inl (rd, st, name, iteration) \<Rightarrow> 0
              | Inr (rd, st, name, iteration, keys) \<Rightarrow> length keys]")
     (auto simp: maxIteration_def)

declare del.simps [simp del]

text \<open>
  The method \<^verbatim>\<open>remove\<close> (\<open>remove_icons\<close> here): the number it returns and the
  store it leaves.
\<close>

definition remove_icons :: "Entries \<Rightarrow> string \<Rightarrow> RemoveDependencies \<Rightarrow> nat \<times> Entries" where
  "remove_icons es name rd =
     (if (case rd of NewParent p \<Rightarrow> name = p \<or> map_of es p = None | Deps b \<Rightarrow> False)
      then (0, es)
      else
        (case del rd (es, case rd of NewParent p \<Rightarrow> [p] | Deps b \<Rightarrow> []) name 0 of
           (ok, es1, names) \<Rightarrow>
             if ok then
               (let names1 = (case rd of NewParent p \<Rightarrow> removeAll p names | Deps b \<Rightarrow> names)
                in (length names1, fold AList.delete names1 es1))
             else (0, es1)))"

text \<open>The part of \<^verbatim>\<open>rename\<close> after the occupant of the new name is gone (lines 715-741).\<close>

definition renameEntry :: "Entries \<Rightarrow> string \<Rightarrow> string \<Rightarrow> bool \<times> Entries" where
  "renameEntry es oldName newName =
     (case map_of es oldName of
        None \<Rightarrow> (False, es)
      | Some item \<Rightarrow>
          (True,
           map (\<lambda>(key, it). (key, if parentOf it = Some oldName then setParent newName it else it))
             (AList.delete oldName (AList.update newName item es))))"

definition rename :: "Entries \<Rightarrow> string \<Rightarrow> string \<Rightarrow> bool \<times> Entries" where
  "rename es oldName newName =
     (if map_of es newName \<noteq> None then
        (case remove_icons es newName (Deps True) of
           (n, es1) \<Rightarrow> if n = 0 then (False, es1) else renameEntry es1 oldName newName)
      else renameEntry es oldName newName)"

section \<open>The icon set\<close>

typedecl IconifyInfo

record IconSet =
  prefix :: string
  entries :: Entries
  info :: "IconifyInfo option"
  heap :: "IconCategory list"
  categories :: "CategoryRef list"
  prefixes :: "(string \<times> string) list"
  suffixes :: "(string \<times> string) list"

subsection \<open>Filtering entries\<close>

text \<open>
  The method \<^verbatim>\<open>_filter\<close> (\<open>filter_entries\<close> here). The callback of
  \<^verbatim>\<open>checkTheme\<close> writes to a variable of its caller, so a callback takes and returns
  a state of type \<open>'s\<close>.
\<close>

fun filterLoop ::
  "(string \<Rightarrow> IconSetIconEntry \<Rightarrow> ResolvedIconifyIcon option \<Rightarrow> 's \<Rightarrow> bool \<times> 's)
    \<Rightarrow> Entries \<Rightarrow> string list \<Rightarrow> 's \<Rightarrow> string list \<times> 's" where
  "filterLoop callback es [] s = ([], s)"
| "filterLoop callback es (key # keys) s =
     (case map_of es key of
        None \<Rightarrow> filterLoop callback es keys s
      | Some item \<Rightarrow>
          (case parentOf item of
             None \<Rightarrow>
               (case callback key item None s of
                  (keep, s1) \<Rightarrow>
                    (case filterLoop callback es keys s1 of
                       (names, s2) \<Rightarrow> (if keep then key # names else names, s2)))
           | Some par \<Rightarrow>
               (case resolve es key of
                  None \<Rightarrow> filterLoop callback es keys s
                | Some icon \<Rightarrow>
                    (case callback key item (Some icon) s of
                       (keep, s1) \<Rightarrow>
                         (case filterLoop callback es keys s1 of
                            (names, s2) \<Rightarrow> (if keep then key # names else names, s2))))))"

definition filter_entries ::
  "(string \<Rightarrow> IconSetIconEntry \<Rightarrow> ResolvedIconifyIcon option \<Rightarrow> 's \<Rightarrow> bool \<times> 's)
    \<Rightarrow> Entries \<Rightarrow> 's \<Rightarrow> string list \<times> 's" where
  "filter_entries callback es s = filterLoop callback es (map fst es) s"

subsection \<open>Categories\<close>

definition findCategory :: "IconSet \<Rightarrow> string \<Rightarrow> bool \<Rightarrow> CategoryRef option \<times> IconSet" where
  "findCategory s t add =
     (case find (\<lambda>ref. title (heap s ! ref) = t) (categories s) of
        Some ref \<Rightarrow> (Some ref, s)
      | None \<Rightarrow>
          if add then
            (Some (length (heap s)),
             s\<lparr>heap := heap s @ [\<lparr>title = t, count = 0\<rparr>],
               categories := categories s @ [length (heap s)]\<rparr>)
          else (None, s))"

text \<open>\<^verbatim>\<open>listCategory\<close> called with a category object, and called with a title.\<close>

definition listCategoryItem :: "IconSet \<Rightarrow> CategoryRef \<Rightarrow> string list option \<times> IconSet" where
  "listCategoryItem s ref =
     (let icons =
            fst (filter_entries
                   (\<lambda>key item icon u.
                      (case item of
                         Icon b p cs cats \<Rightarrow> \<not> truthyOpt (p PHidden) \<and> ref \<in> set cats
                       | Alias par cs \<Rightarrow> False
                       | Variation par p cs \<Rightarrow> False, u))
                   (entries s) ());
          s1 = s\<lparr>heap := (heap s)[ref := (heap s ! ref)\<lparr>count := int (length icons)\<rparr>]\<rparr>
      in if length icons = 0
         then (None, s1\<lparr>categories := removeAll ref (categories s1)\<rparr>)
         else (Some icons, s1))"

definition listCategory :: "IconSet \<Rightarrow> string \<Rightarrow> string list option \<times> IconSet" where
  "listCategory s t =
     (case findCategory s t False of
        (None, s1) \<Rightarrow> (None, s1)
      | (Some ref, s1) \<Rightarrow> listCategoryItem s1 ref)"

definition toggleCategory :: "IconSet \<Rightarrow> string \<Rightarrow> string \<Rightarrow> bool \<Rightarrow> bool \<times> IconSet" where
  "toggleCategory s iconName category add =
     (let item = map_of (entries s) iconName in
      case findCategory s category add of
        (categoryItem, s1) \<Rightarrow>
          (case (item, categoryItem) of
             (Some (Icon b p cs cats), Some ref) \<Rightarrow>
               if (ref \<in> set cats) \<noteq> add then
                 (True,
                  s1\<lparr>heap := (heap s1)[ref := (heap s1 ! ref)
                                \<lparr>count := count (heap s1 ! ref) + (if add then 1 else - 1)\<rparr>],
                     entries := AList.update iconName
                                  (Icon b p cs (if add then setAdd ref cats else removeAll ref cats))
                                  (entries s1)\<rparr>)
               else (False, s1)
           | _ \<Rightarrow> (False, s1)))"

subsection \<open>Loading a document\<close>

text \<open>
  The input document \<^verbatim>\<open>IconifyJSON\<close>. An object is the list of its properties in
  enumeration order; an optional field is an \<open>option\<close>. The optional properties the
  document itself carries (the defaults of its icons) are \<open>d_props\<close>.
\<close>

typedecl RawInfo

record LegacyTheme =
  t_title :: string
  t_prefix :: "string option"
  t_suffix :: "string option"

record IconifyJSON =
  d_prefix :: string
  d_props :: Props
  d_icons :: "(string \<times> string \<times> Props) list"
  d_aliases :: "(string \<times> string \<times> Props) list option"
  d_info :: "RawInfo option"
  d_chars :: "(string \<times> string) list option"
  d_categories :: "(string \<times> string list) list option"
  d_themes :: "(string \<times> LegacyTheme) list option"
  d_prefixes :: "(string \<times> string) list option"
  d_suffixes :: "(string \<times> string) list option"

text \<open>
  What \<^verbatim>\<open>load\<close> imports: the function \<^verbatim>\<open>filterProps\<close> and the table
  \<^verbatim>\<open>defaultCommonProps\<close> of \<^verbatim>\<open>./props\<close> (not among the sources), and
  \<^verbatim>\<open>defaultIconDimensions\<close> and \<^verbatim>\<open>convertIconSetInfo\<close> of the utilities library.
  They are parameters of the model.
\<close>

record Imports =
  filterProps :: "Props \<Rightarrow> Props \<Rightarrow> bool \<Rightarrow> Props"
  defaultCommonProps :: Props
  defaultIconDimensions :: Props
  convertIconSetInfo :: "RawInfo \<Rightarrow> IconifyInfo option"

definition loadIcons :: "Imports \<Rightarrow> IconifyJSON \<Rightarrow> Entries" where
  "loadIcons imp data =
     (let defaultProps = filterProps imp (d_props data) (defaultIconDimensions imp) True
      in fold (\<lambda>(name, b, p) es.
                 AList.update name
                   (Icon b (filterProps imp (defaultProps ++ p) (defaultCommonProps imp) True) [] [])
                   es)
           (d_icons data) [])"

definition loadAliases :: "Imports \<Rightarrow> IconifyJSON \<Rightarrow> Entries \<Rightarrow> Entries" where
  "loadAliases imp data es0 =
     (case d_aliases data of
        None \<Rightarrow> es0
      | Some aliases \<Rightarrow>
          fold (\<lambda>(name, par, p) es.
                  if map_of es name \<noteq> None then es
                  else
                    (let props = filterProps imp p (defaultCommonProps imp) False
                     in if length (keysOf props) \<noteq> 0
                        then AList.update name (Variation par props []) es
                        else AList.update name (Alias par []) es))
            aliases es0)"

definition loadChars :: "IconifyJSON \<Rightarrow> Entries \<Rightarrow> Entries" where
  "loadChars data es0 =
     (case d_chars data of
        None \<Rightarrow> es0
      | Some chars \<Rightarrow>
          fold (\<lambda>(c, name) es.
                  case map_of es name of
                    None \<Rightarrow> es
                  | Some icon \<Rightarrow> AList.update name (addChar c icon) es)
            chars es0)"

text \<open>One round of the loop over \<^verbatim>\<open>data.categories\<close> (lines 171-187).\<close>

definition addCategory :: "CategoryRef \<Rightarrow> string \<Rightarrow> Entries \<Rightarrow> Entries" where
  "addCategory ref iconName es =
     (case map_of es iconName of
        Some (Icon b p cs cats) \<Rightarrow> AList.update iconName (Icon b p cs (setAdd ref cats)) es
      | _ \<Rightarrow> es)"

definition loadCategory :: "string \<times> string list \<Rightarrow> IconSet \<Rightarrow> IconSet" where
  "loadCategory c s =
     (let item = length (heap s);
          s1 = s\<lparr>heap := heap s @ [\<lparr>title = fst c, count = 0\<rparr>]\<rparr>;
          s2 = s1\<lparr>entries := fold (addCategory item) (snd c) (entries s1)\<rparr>;
          s3 = s2\<lparr>categories := setAdd item (categories s2)\<rparr>
      in snd (listCategoryItem s3 item))"

definition loadCategories :: "IconifyJSON \<Rightarrow> IconSet \<Rightarrow> IconSet" where
  "loadCategories data s =
     (case d_categories data of
        None \<Rightarrow> s
      | Some cs \<Rightarrow> fold loadCategory cs s)"

text \<open>The import of the legacy format (lines 193-212) and of the explicit tables.\<close>

definition legacyPrefixes :: "(string \<times> LegacyTheme) list \<Rightarrow> (string \<times> string) list" where
  "legacyPrefixes themes =
     fold (\<lambda>(key, item) tbl.
             case t_prefix item of
               None \<Rightarrow> tbl
             | Some pre \<Rightarrow>
                 if pre \<noteq> [] \<and> last pre = CHR ''-''
                 then AList.update (butlast pre) (t_title item) tbl else tbl)
       themes []"

definition legacySuffixes :: "(string \<times> LegacyTheme) list \<Rightarrow> (string \<times> string) list" where
  "legacySuffixes themes =
     fold (\<lambda>(key, item) tbl.
             case t_suffix item of
               None \<Rightarrow> tbl
             | Some suf \<Rightarrow>
                 if suf \<noteq> [] \<and> hd suf = CHR ''-''
                 then AList.update (tl suf) (t_title item) tbl else tbl)
       themes []"

definition copyTheme :: "(string \<times> string) list option \<Rightarrow> (string \<times> string) list
    \<Rightarrow> (string \<times> string) list" where
  "copyTheme explicit imported =
     (case explicit of
        None \<Rightarrow> imported
      | Some items \<Rightarrow> fold (\<lambda>(key, v) tbl. AList.update key v tbl) items [])"

definition load :: "Imports \<Rightarrow> IconifyJSON \<Rightarrow> IconSet" where
  "load imp data =
     (let es = loadChars data (loadAliases imp data (loadIcons imp data));
          s = loadCategories data
                \<lparr>prefix = d_prefix data, entries = es,
                 info = (case d_info data of None \<Rightarrow> None | Some i \<Rightarrow> convertIconSetInfo imp i),
                 heap = [], categories = [], prefixes = [], suffixes = []\<rparr>;
          themes = (case d_themes data of None \<Rightarrow> [] | Some ts \<Rightarrow> ts)
      in s\<lparr>prefixes := copyTheme (d_prefixes data) (legacyPrefixes themes),
           suffixes := copyTheme (d_suffixes data) (legacySuffixes themes)\<rparr>)"

subsection \<open>Themes\<close>

text \<open>
  \<^verbatim>\<open>Array.prototype.sort\<close> with a comparison function is a stable sort; it is modelled
  by insertion from the right, which gives the result of every stable sort when the
  comparison is consistent. The collation \<^verbatim>\<open>String.prototype.localeCompare\<close> is the
  parameter \<open>localeCompare\<close>.
\<close>

fun insertBy :: "('a \<Rightarrow> 'a \<Rightarrow> int) \<Rightarrow> 'a \<Rightarrow> 'a list \<Rightarrow> 'a list" where
  "insertBy cmp x [] = [x]"
| "insertBy cmp x (y # ys) = (if cmp x y \<le> 0 then x # y # ys else y # insertBy cmp x ys)"

definition arraySort :: "('a \<Rightarrow> 'a \<Rightarrow> int) \<Rightarrow> 'a list \<Rightarrow> 'a list" where
  "arraySort cmp xs = foldr (insertBy cmp) xs []"

definition compareKeys :: "(string \<Rightarrow> string \<Rightarrow> int) \<Rightarrow> string \<Rightarrow> string \<Rightarrow> int" where
  "compareKeys localeCompare a b =
     (if length a = length b then localeCompare a b else int (length b) - int (length a))"

definition sortThemeKeys :: "(string \<Rightarrow> string \<Rightarrow> int) \<Rightarrow> string list \<Rightarrow> string list" where
  "sortThemeKeys localeCompare keys = arraySort (compareKeys localeCompare) keys"

record CheckThemeResult =
  valid :: "(string \<times> string list) list"
  invalid :: "string list"

text \<open>
  The loop over the sorted keys (lines 886-903): the key whose bucket receives the name,
  if any. \<^verbatim>\<open>name.slice(0, length)\<close> is \<open>take\<close>, \<^verbatim>\<open>name.slice(0 - length)\<close> the last
  \<open>length\<close> characters (the whole name when it is shorter).
\<close>

fun themeLoop :: "bool \<Rightarrow> string list \<Rightarrow> string \<Rightarrow> string option" where
  "themeLoop isPrefix [] name = None"
| "themeLoop isPrefix (search # keys) name =
     (if search = [] then Some search
      else
        (let match = (if isPrefix then search @ ''-'' else ''-'' @ search);
             test = (if isPrefix then take (length match) name
                     else drop (length name - length match) name)
         in if test = match then Some search else themeLoop isPrefix keys name))"

text \<open>
  \<^verbatim>\<open>results.valid[search].push(name)\<close>. The key \<open>search\<close> is one of the sorted
  keys, and each of them was given a bucket before the loop, so the bucket exists.
\<close>

definition pushValid :: "string \<Rightarrow> string \<Rightarrow> (string \<times> string list) list
    \<Rightarrow> (string \<times> string list) list" where
  "pushValid search name v =
     (case map_of v search of
        None \<Rightarrow> v
      | Some names \<Rightarrow> AList.update search (names @ [name]) v)"

definition themeCallback :: "bool \<Rightarrow> string list \<Rightarrow> string \<Rightarrow> IconSetIconEntry
    \<Rightarrow> ResolvedIconifyIcon option \<Rightarrow> (string \<times> string list) list
    \<Rightarrow> bool \<times> (string \<times> string list) list" where
  "themeCallback isPrefix keys name item icon v =
     (if (case item of
            Icon b p cs cats \<Rightarrow> truthyOpt (p PHidden)
          | Alias par cs \<Rightarrow> True
          | Variation par p cs \<Rightarrow>
              truthyOpt (p PHidden)
              \<or> (case icon of None \<Rightarrow> False | Some r \<Rightarrow> truthyOpt (rprops r PHidden)))
      then (False, v)
      else
        (case themeLoop isPrefix keys name of
           Some search \<Rightarrow> (False, pushValid search name v)
         | None \<Rightarrow> (True, v)))"

definition checkTheme :: "(string \<Rightarrow> string \<Rightarrow> int) \<Rightarrow> IconSet \<Rightarrow> bool \<Rightarrow> CheckThemeResult" where
  "checkTheme localeCompare s isPrefix =
     (let themes = (if isPrefix then prefixes s else suffixes s);
          keys = sortThemeKeys localeCompare (map fst themes);
          r = filter_entries (themeCallback isPrefix keys) (entries s)
                (fold (\<lambda>key v. AList.update key [] v) keys [])
      in \<lparr>valid = snd r, invalid = fst r\<rparr>)"

section \<open>Notions used in the statements\<close>

text \<open>
  \<open>hops es k name\<close> is the name reached from \<open>name\<close> after \<open>k\<close> steps along the
  \<^verbatim>\<open>parent\<close> references of the store, when every name on the way but the last is the
  key of an alias or a variation. So \<open>hops es k m = Some name\<close> says that the parent chain
  of \<open>m\<close> leads to \<open>name\<close> in \<open>k\<close> steps.
\<close>

fun hops :: "Entries \<Rightarrow> nat \<Rightarrow> string \<Rightarrow> string option" where
  "hops es 0 name = Some name"
| "hops es (Suc k) name =
     (case map_of es name of
        None \<Rightarrow> None
      | Some item \<Rightarrow> (case parentOf item of None \<Rightarrow> None | Some par \<Rightarrow> hops es k par))"

text \<open>
  \<open>mergedValue p q attr\<close> is what one round of the loop over the properties of a
  variation (its bag \<open>p\<close>) leaves under the key \<open>attr\<close> of a parent with the bag \<open>q\<close>.
\<close>

definition mergedValue :: "Props \<Rightarrow> Props \<Rightarrow> PropKey \<Rightarrow> PropValue option" where
  "mergedValue p q attr =
     (case p attr of
        None \<Rightarrow> q attr
      | Some v \<Rightarrow>
          if truthy v then (case q attr of None \<Rightarrow> Some v | Some pv \<Rightarrow> Some (mergeValue attr pv v))
          else q attr)"

text \<open>
  \<open>visibleIcon es n\<close>: the name \<open>n\<close> is the key of an icon entry that is not hidden.
  \<open>hasCategory es ref n\<close>: it is the key of an icon entry whose category set holds the
  category at \<open>ref\<close>. \<open>categoryIcons es ref\<close> are the names \<^verbatim>\<open>listCategory\<close> finds for
  that category, \<open>listedIcons es names\<close> the keys of non-hidden icons among \<open>names\<close>,
  both in the order of the store.
\<close>

definition visibleIcon :: "Entries \<Rightarrow> string \<Rightarrow> bool" where
  "visibleIcon es n =
     (case map_of es n of
        Some (Icon b p cs cats) \<Rightarrow> \<not> truthyOpt (p PHidden)
      | _ \<Rightarrow> False)"

definition hasCategory :: "Entries \<Rightarrow> CategoryRef \<Rightarrow> string \<Rightarrow> bool" where
  "hasCategory es ref n =
     (case map_of es n of
        Some (Icon b p cs cats) \<Rightarrow> ref \<in> set cats
      | _ \<Rightarrow> False)"

definition categoryIcons :: "Entries \<Rightarrow> CategoryRef \<Rightarrow> string list" where
  "categoryIcons es ref = filter (\<lambda>k. visibleIcon es k \<and> hasCategory es ref k) (map fst es)"

text \<open>
  What the loop over \<^verbatim>\<open>data.categories\<close> maintains. Before it, no icon has a category
  (\<open>freshIcons\<close>). After the categories \<open>declared\<close> have been processed, the category
  declared at position \<open>i\<close> lives at address \<open>i\<close>, an icon holds the addresses of the
  categories that list it (\<open>catsOf\<close>, \<open>loadedEntry\<close>), and the category set holds the
  addresses of the categories that list a non-hidden icon (\<open>categoriesLoaded\<close>).
  \<open>tagEntry\<close> is the effect of \<^verbatim>\<open>icon.categories.add(item)\<close> on one entry.
\<close>

definition freshIcons :: "Entries \<Rightarrow> bool" where
  "freshIcons es = (\<forall>n b p cs cats. map_of es n = Some (Icon b p cs cats) \<longrightarrow> cats = [])"

definition tagEntry :: "CategoryRef \<Rightarrow> bool \<Rightarrow> IconSetIconEntry \<Rightarrow> IconSetIconEntry" where
  "tagEntry ref on e =
     (case e of
        Icon b p cs cats \<Rightarrow> Icon b p cs (if on then setAdd ref cats else cats)
      | Alias par cs \<Rightarrow> e
      | Variation par p cs \<Rightarrow> e)"

definition catsOf :: "(string \<times> string list) list \<Rightarrow> string \<Rightarrow> CategoryRef list" where
  "catsOf declared n = filter (\<lambda>i. n \<in> set (snd (declared ! i))) [0..<length declared]"

definition loadedEntry :: "(string \<times> string list) list \<Rightarrow> string \<Rightarrow> IconSetIconEntry
    \<Rightarrow> IconSetIconEntry" where
  "loadedEntry declared n e =
     (case e of
        Icon b p cs cats \<Rightarrow> Icon b p cs (catsOf declared n)
      | Alias par cs \<Rightarrow> e
      | Variation par p cs \<Rightarrow> e)"

definition listedIcons :: "Entries \<Rightarrow> string list \<Rightarrow> string list" where
  "listedIcons es names = filter (\<lambda>k. visibleIcon es k \<and> k \<in> set names) (map fst es)"

definition categoriesLoaded :: "Entries \<Rightarrow> (string \<times> string list) list \<Rightarrow> IconSet \<Rightarrow> bool" where
  "categoriesLoaded es0 declared s \<longleftrightarrow>
     length (heap s) = length declared
     \<and> (\<forall>i<length declared.
           heap s ! i = \<lparr>title = fst (declared ! i),
                         count = int (length (listedIcons es0 (snd (declared ! i))))\<rparr>)
     \<and> map fst (entries s) = map fst es0
     \<and> (\<forall>n. map_of (entries s) n = map_option (loadedEntry declared n) (map_of es0 n))
     \<and> categories s = filter (\<lambda>i. listedIcons es0 (snd (declared ! i)) \<noteq> []) [0..<length declared]"

text \<open>
  \<open>matchesKey isPrefix key name\<close>: the key matches the name. The empty key matches
  every name; another key matches in prefix mode when the name begins with the key followed
  by a hyphen, in suffix mode when it ends with a hyphen followed by the key.
  \<open>visibleEntry es n\<close>: the name is the key of an icon that is not hidden, or of a
  variation that resolves and is hidden neither by its own properties nor in its resolved
  form. An alias is never visible.
\<close>

definition matchesKey :: "bool \<Rightarrow> string \<Rightarrow> string \<Rightarrow> bool" where
  "matchesKey isPrefix key name \<longleftrightarrow>
     key = [] \<or> (if isPrefix then (\<exists>rest. name = key @ ''-'' @ rest)
                 else (\<exists>rest. name = rest @ ''-'' @ key))"

definition visibleEntry :: "Entries \<Rightarrow> string \<Rightarrow> bool" where
  "visibleEntry es n =
     (case map_of es n of
        None \<Rightarrow> False
      | Some (Icon b p cs cats) \<Rightarrow> \<not> truthyOpt (p PHidden)
      | Some (Alias par cs) \<Rightarrow> False
      | Some (Variation par p cs) \<Rightarrow>
          (case resolve es n of
             None \<Rightarrow> False
           | Some r \<Rightarrow> \<not> truthyOpt (p PHidden) \<and> \<not> truthyOpt (rprops r PHidden)))"

section \<open>Parent chains\<close>

lemma hops_add:
  "hops es (a + b) n = (case hops es a n of None \<Rightarrow> None | Some m \<Rightarrow> hops es b m)"
  by (induction a arbitrary: n) (auto split: option.splits)

lemma hops_step_last:
  "hops es k n = Some key \<Longrightarrow> map_of es key = Some item \<Longrightarrow> parentOf item = Some name \<Longrightarrow>
   hops es (Suc k) n = Some name"
  using hops_add [of es k 1 n] by simp

lemma hops_Suc_last:
  "hops es (Suc k) n = Some name \<Longrightarrow>
   \<exists>key item. hops es k n = Some key \<and> map_of es key = Some item \<and> parentOf item = Some name"
  using hops_add [of es k 1 n] by (auto split: option.splits)

lemma hops_cycle:
  assumes "hops es k name = Some name" and "0 < k"
  shows "hops es j name \<noteq> None"
proof (induction j rule: less_induct)
  case (less j)
  show ?case
  proof (cases "j < k")
    case True
    then have "k = j + (k - j)" by simp
    with hops_add [of es j "k - j" name] assms(1) show ?thesis
      by (metis option.simps(4) option.distinct(1))
  next
    case False
    then have j: "j = k + (j - k)" by simp
    have "hops es j name = hops es (j - k) name"
      by (subst j, subst hops_add) (simp add: assms(1))
    moreover have "j - k < j" using False assms(2) by simp
    ultimately show ?thesis using less by simp
  qed
qed

section \<open>Resolution: when it fails\<close>

lemma getIcon_missing: "map_of es n = None \<Longrightarrow> getIcon es n i = None"
  by (simp add: getIcon.simps)

lemma getIcon_deep: "maxIteration < i \<Longrightarrow> getIcon es n i = None"
  by (simp add: getIcon.simps split: option.splits)

lemma getIcon_Icon:
  "map_of es n = Some (Icon b p cs cats) \<Longrightarrow> i \<le> maxIteration \<Longrightarrow>
   getIcon es n i = Some \<lparr>rbody = b, rprops = p\<rparr>"
  by (simp add: getIcon.simps)

lemma getIcon_Alias:
  "map_of es n = Some (Alias par cs) \<Longrightarrow> i \<le> maxIteration \<Longrightarrow>
   getIcon es n i = getIcon es par (Suc i)"
  by (simp add: getIcon.simps)

lemma getIcon_Variation:
  "map_of es n = Some (Variation par p cs) \<Longrightarrow> i \<le> maxIteration \<Longrightarrow>
   getIcon es n i = map_option (mergeProps p) (getIcon es par (Suc i))"
  by (simp add: getIcon.simps split: option.splits)

text \<open>
  With \<open>d\<close> levels left below the bound, a walk fails exactly when it meets a name that is
  not a key within those levels, or the chain goes on for \<open>d\<close> steps.
\<close>

lemma getIcon_None_fuel:
  "i + d = Suc maxIteration \<Longrightarrow>
   getIcon es n i = None \<longleftrightarrow>
     (\<exists>k<d. \<exists>m. hops es k n = Some m \<and> map_of es m = None) \<or> (\<exists>m. hops es d n = Some m)"
proof (induction d arbitrary: n i)
  case 0
  then show ?case by (simp add: getIcon_deep)
next
  case (Suc d)
  then have le: "i \<le> maxIteration" and next_i: "Suc i + d = Suc maxIteration" by simp_all
  show ?case
  proof (cases "map_of es n")
    case None
    then show ?thesis by (auto simp: getIcon_missing Ex_less_Suc2)
  next
    case (Some item)
    show ?thesis
    proof (cases item)
      case (Icon b p cs cats)
      with Some le show ?thesis by (simp add: getIcon_Icon Ex_less_Suc2)
    next
      case (Alias par cs)
      with Some le Suc.IH [OF next_i, of par] show ?thesis
        by (simp add: getIcon_Alias Ex_less_Suc2)
    next
      case (Variation par p cs)
      with Some le Suc.IH [OF next_i, of par] show ?thesis
        by (simp add: getIcon_Variation Ex_less_Suc2)
    qed
  qed
qed

lemma resolve_None_iff:
  "resolve es name = None \<longleftrightarrow>
     (\<exists>k n. k \<le> maxIteration \<and> hops es k name = Some n \<and> map_of es n = None)
     \<or> (\<exists>n. hops es (Suc maxIteration) name = Some n)"
  using getIcon_None_fuel [of 0 "Suc maxIteration" es name]
  by (auto simp: resolve_def less_Suc_eq_le)

text \<open>
  Claim C2, as amended. \<^verbatim>\<open>resolve(name)\<close> returns either an icon or the one absent
  result (the result type has no other failure). It is absent exactly when, within six
  steps along the parent references, the walk reaches a name that is not a key of the
  store (the name itself, or the parent named by an alias or variation on the way), or
  the chain goes on for a seventh step. In particular a chain that returns to its start,
  such as A to B to A, and every chain of more than six steps resolve to absent.
\<close>

theorem resolve_absent_iff:
  "(resolve es name = None \<longleftrightarrow>
      (\<exists>k n. k \<le> maxIteration \<and> hops es k name = Some n \<and> map_of es n = None)
      \<or> (\<exists>n. hops es (Suc maxIteration) name = Some n))
   \<and> ((\<exists>k. 0 < k \<and> hops es k name = Some name) \<longrightarrow> resolve es name = None)
   \<and> ((\<exists>n. hops es (Suc maxIteration) name = Some n) \<longrightarrow> resolve es name = None)"
proof -
  have "resolve es name = None" if "0 < k" and "hops es k name = Some name" for k
  proof -
    from hops_cycle [OF that(2) that(1), of "Suc maxIteration"]
    have "\<exists>n. hops es (Suc maxIteration) name = Some n" by auto
    then show ?thesis by (simp only: resolve_None_iff) blast
  qed
  then show ?thesis using resolve_None_iff [of es name] by blast
qed

theorem resolve_absent_iff_witness:
  "hops [(''a'', Alias ''b'' []), (''b'', Alias ''a'' [])] 2 ''a'' = Some ''a''
   \<and> resolve [(''a'', Alias ''b'' []), (''b'', Alias ''a'' [])] ''a'' = None"
proof -
  let ?es = "[(''a'', Alias ''b'' []), (''b'', Alias ''a'' [])]"
  have h: "hops ?es 2 ''a'' = Some ''a''" by (simp add: eval_nat_numeral)
  then have "\<exists>k. 0 < k \<and> hops ?es k ''a'' = Some ''a''" by (intro exI [of _ 2]) simp
  with resolve_absent_iff [of ?es "''a''"] h show ?thesis by blast
qed

text \<open>
  Claim C2 as stated fails: in the store whose only entry is the alias \<open>a\<close> of the
  missing name \<open>ghost\<close>, the name \<open>a\<close> is known and its chain has one step, not more
  than six, yet \<^verbatim>\<open>resolve(a)\<close> is absent.
\<close>

theorem resolve_dangling_parent_counterexample:
  "map_of [(''a'', Alias ''ghost'' [])] ''a'' = Some (Alias ''ghost'' [])
   \<and> hops [(''a'', Alias ''ghost'' [])] 1 ''a'' = Some ''ghost''
   \<and> hops [(''a'', Alias ''ghost'' [])] 2 ''a'' = None
   \<and> hops [(''a'', Alias ''ghost'' [])] (Suc maxIteration) ''a'' = None
   \<and> resolve [(''a'', Alias ''ghost'' [])] ''a'' = None"
  by (simp add: resolve_def getIcon.simps maxIteration_def eval_nat_numeral)

section \<open>Cycles through successful insertions\<close>

text \<open>
  Claim C10. The parent check of \<^verbatim>\<open>setItem\<close> looks only at whether the parent is a
  key of the store at the moment of the call: an icon is always stored, an alias or a
  variation exactly when its parent is a key. Starting from a store that holds the icon
  \<open>x\<close>, the calls \<^verbatim>\<open>setAlias(a, x)\<close>, \<^verbatim>\<open>setAlias(b, a)\<close>, \<^verbatim>\<open>setAlias(a, b)\<close>
  all return true, and afterwards neither \<open>a\<close> nor \<open>b\<close> resolves.
\<close>

theorem setAlias_builds_cycle:
  "fst (setItem es name item) =
     (case parentOf item of None \<Rightarrow> True | Some par \<Rightarrow> map_of es par \<noteq> None)
   \<and> snd (setItem es name item) =
       (if fst (setItem es name item) then AList.update name item es else es)
   \<and> (let s0 = [(''x'', Icon ''<g/>'' Map.empty [] [])];
          r1 = setAlias s0 ''a'' ''x'';
          r2 = setAlias (snd r1) ''b'' ''a'';
          r3 = setAlias (snd r2) ''a'' ''b''
      in fst r1 \<and> fst r2 \<and> fst r3
         \<and> map_of (snd r3) ''a'' = Some (Alias ''b'' [])
         \<and> map_of (snd r3) ''b'' = Some (Alias ''a'' [])
         \<and> resolve (snd r3) ''a'' = None
         \<and> resolve (snd r3) ''b'' = None)"
proof -
  have first: "fst (setItem es name item) =
      (case parentOf item of None \<Rightarrow> True | Some par \<Rightarrow> map_of es par \<noteq> None)"
    by (simp add: setItem_def Let_def split: option.splits)
  have second: "snd (setItem es name item) =
      (if fst (setItem es name item) then AList.update name item es else es)"
    by (simp add: setItem_def Let_def)
  have third: "(let s0 = [(''x'', Icon ''<g/>'' Map.empty [] [])];
          r1 = setAlias s0 ''a'' ''x'';
          r2 = setAlias (snd r1) ''b'' ''a'';
          r3 = setAlias (snd r2) ''a'' ''b''
      in fst r1 \<and> fst r2 \<and> fst r3
         \<and> map_of (snd r3) ''a'' = Some (Alias ''b'' [])
         \<and> map_of (snd r3) ''b'' = Some (Alias ''a'' [])
         \<and> resolve (snd r3) ''a'' = None
         \<and> resolve (snd r3) ''b'' = None)"
    by (simp add: setAlias_def setItem_def Let_def resolve_def getIcon.simps maxIteration_def)
  from first second third show ?thesis by blast
qed

section \<open>The cascading removal\<close>

text \<open>
  With \<^verbatim>\<open>removeDependencies = true\<close> the walk never writes to the store, and
  \<^verbatim>\<open>names\<close> only grows and stays free of duplicates.
\<close>

lemma del_frame:
  "rd = Deps True \<Longrightarrow>
     fst (snd (del rd st name i)) = fst st
     \<and> set (snd st) \<subseteq> set (snd (snd (del rd st name i)))
     \<and> (distinct (snd st) \<longrightarrow> distinct (snd (snd (del rd st name i))))"
  "rd = Deps True \<Longrightarrow>
     fst (snd (delLoop rd st name i keys)) = fst st
     \<and> set (snd st) \<subseteq> set (snd (snd (delLoop rd st name i keys)))
     \<and> (distinct (snd st) \<longrightarrow> distinct (snd (snd (delLoop rd st name i keys))))"
proof (induction rd st name i and rd st name i keys rule: del_delLoop.induct)
  case (1 rd es names name iteration)
  then show ?case by (subst (1 2 3) del.simps) auto
next
  case (2 rd es names name iteration)
  then show ?case by simp
next
  case (3 rd es names name iteration key keys)
  show ?case
  proof (cases "map_of es key")
    case None
    with 3 show ?thesis by simp
  next
    case (Some item)
    show ?thesis
    proof (cases "parentOf item = Some name")
      case False
      with 3 Some show ?thesis by simp
    next
      case True
      obtain ok st1 where d: "del rd (es, names) key (iteration + 1) = (ok, st1)"
        by (cases "del rd (es, names) key (iteration + 1)") auto
      from "3.IH"(2) [OF Some True "3.prems" "3.prems"] d "3.prems"
      have f1: "fst st1 = es" "set names \<subseteq> set (snd st1)"
        "distinct names \<longrightarrow> distinct (snd st1)" by auto
      show ?thesis
      proof (cases ok)
        case False
        with Some True d f1 "3.prems" show ?thesis by simp
      next
        case ok: True
        from "3.IH"(3) [OF Some True "3.prems" d [symmetric] ok "3.prems"]
        have "fst (snd (delLoop rd st1 name iteration keys)) = fst st1
          \<and> set (snd st1) \<subseteq> set (snd (snd (delLoop rd st1 name iteration keys)))
          \<and> (distinct (snd st1) \<longrightarrow> distinct (snd (snd (delLoop rd st1 name iteration keys))))"
          by simp
        with Some True d f1 ok "3.prems" show ?thesis by auto
      qed
    qed
  qed
qed

text \<open>
  A walk that succeeds has visited every entry whose parent chain leads to the name it
  started from, each at a depth within the bound.
\<close>

lemma del_complete:
  "rd = Deps True \<Longrightarrow> fst (del rd st name i) \<Longrightarrow>
     i \<le> maxIteration
     \<and> (\<forall>k n. hops (fst st) k n = Some name \<longrightarrow>
           i + k \<le> maxIteration \<and> n \<in> set (snd (snd (del rd st name i))))"
  "rd = Deps True \<Longrightarrow> fst (delLoop rd st name i keys) \<Longrightarrow>
     (\<forall>key item k n. key \<in> set keys \<and> map_of (fst st) key = Some item
           \<and> parentOf item = Some name \<and> hops (fst st) k n = Some key \<longrightarrow>
           Suc i + k \<le> maxIteration \<and> n \<in> set (snd (snd (delLoop rd st name i keys))))"
proof (induction rd st name i and rd st name i keys rule: del_delLoop.induct)
  case (1 rd es names name iteration)
  from "1.prems" have guard: "map_of es name \<noteq> None" "iteration \<le> maxIteration" "name \<notin> set names"
    and eq: "del rd (es, names) name iteration
               = delLoop rd (es, names @ [name]) name iteration (map fst es)"
    by (auto simp: del.simps split: if_splits)
  from guard have g: "\<not> (map_of es name = None \<or> maxIteration < iteration \<or> name \<in> set names)"
    by auto
  have g2: "rd = Deps True \<or> iteration = 0 \<and> isNewParent rd" using "1.prems" by simp
  from "1.prems" eq have okl: "fst (delLoop rd (es, names @ [name]) name iteration (map fst es))"
    by simp
  note IH = "1.IH" [OF g g2 "1.prems"(1) okl]
  have mono: "set (names @ [name]) \<subseteq> set (snd (snd (del rd (es, names) name iteration)))"
    using del_frame(2) [OF "1.prems"(1), of "(es, names @ [name])" name iteration "map fst es"] eq
    by simp
  have "i + k \<le> maxIteration \<and> n \<in> set (snd (snd (del rd (es, names) name iteration)))"
    if h: "hops es k n = Some name" and i: "i = iteration" for i k n
  proof (cases k)
    case 0
    with h have "n = name" by simp
    with mono guard i 0 show ?thesis by auto
  next
    case (Suc k')
    with h obtain key item where kk: "hops es k' n = Some key" "map_of es key = Some item"
      "parentOf item = Some name"
      using hops_Suc_last by blast
    from kk(2) have "key \<in> set (map fst es)"
      by (metis image_eqI map_of_SomeD fst_conv set_map)
    with IH kk have "Suc iteration + k' \<le> maxIteration
        \<and> n \<in> set (snd (snd (delLoop rd (es, names @ [name]) name iteration (map fst es))))"
      by (simp (no_asm_use)) blast
    with eq Suc i show ?thesis by simp
  qed
  with guard show ?case by simp
next
  case (2 rd es names name iteration)
  then show ?case by simp
next
  case (3 rd es names name iteration key keys)
  note rd = "3.prems"(1)
  show ?case
  proof (cases "map_of es key")
    case None
    with 3 show ?thesis by auto
  next
    case (Some item)
    show ?thesis
    proof (cases "parentOf item = Some name")
      case False
      with "3.prems" Some "3.IH"(6) [OF Some False rd] show ?thesis by auto
    next
      case True
      obtain ok st1 where d: "del rd (es, names) key (iteration + 1) = (ok, st1)"
        by (cases "del rd (es, names) key (iteration + 1)") auto
      have ok: ok using "3.prems" Some True d by (auto split: if_splits)
      have eq: "delLoop rd (es, names) name iteration (key # keys) = delLoop rd st1 name iteration keys"
        using Some True d ok rd by simp
      from del_frame(1) [OF rd, of "(es, names)" key "iteration + 1"] d
      have f1: "fst st1 = es" by simp
      from del_frame(2) [OF rd, of st1 name iteration keys]
      have mono: "set (snd st1) \<subseteq> set (snd (snd (delLoop rd st1 name iteration keys)))" by simp
      have okl: "fst (delLoop rd st1 name iteration keys)" using "3.prems"(2) eq by simp
      from "3.IH"(2) [OF Some True rd rd] d ok
      have A: "\<forall>k n. hops es k n = Some key \<longrightarrow>
                 Suc iteration + k \<le> maxIteration \<and> n \<in> set (snd st1)"
        by simp
      from "3.IH"(3) [OF Some True rd d [symmetric] ok rd okl] f1
      have B: "\<forall>key item k n. key \<in> set keys \<and> map_of es key = Some item
           \<and> parentOf item = Some name \<and> hops es k n = Some key \<longrightarrow>
           Suc iteration + k \<le> maxIteration
           \<and> n \<in> set (snd (snd (delLoop rd st1 name iteration keys)))"
        by simp
      show ?thesis
        unfolding eq using A B mono by (simp (no_asm_use)) blast
    qed
  qed
qed

text \<open>Whatever the walk adds to \<^verbatim>\<open>names\<close> is an entry whose parent chain leads there.\<close>

lemma del_sound:
  "rd = Deps True \<Longrightarrow> n \<in> set (snd (snd (del rd st name i))) \<Longrightarrow>
     n \<in> set (snd st) \<or> (map_of (fst st) n \<noteq> None \<and> (\<exists>k. hops (fst st) k n = Some name))"
  "rd = Deps True \<Longrightarrow> n \<in> set (snd (snd (delLoop rd st name i keys))) \<Longrightarrow>
     n \<in> set (snd st)
     \<or> (map_of (fst st) n \<noteq> None \<and> (\<exists>k. hops (fst st) (Suc k) n = Some name))"
proof (induction rd st name i and rd st name i keys rule: del_delLoop.induct)
  case (1 rd es names name iteration)
  show ?case
  proof (cases "map_of es name = None \<or> maxIteration < iteration \<or> name \<in> set names")
    case True
    with "1.prems" show ?thesis by (simp add: del.simps)
  next
    case False
    have g2: "rd = Deps True \<or> iteration = 0 \<and> isNewParent rd" using "1.prems" by simp
    from False "1.prems"
    have "n \<in> set (snd (snd (delLoop rd (es, names @ [name]) name iteration (map fst es))))"
      by (auto simp: del.simps split: if_splits)
    from "1.IH" [OF False g2 "1.prems"(1) this]
    have "n \<in> set (names @ [name])
          \<or> (map_of es n \<noteq> None \<and> (\<exists>k. hops es (Suc k) n = Some name))"
      unfolding fst_conv snd_conv .
    then consider "n \<in> set names" | "n = name"
      | "map_of es n \<noteq> None \<and> (\<exists>k. hops es (Suc k) n = Some name)"
      by auto
    then show ?thesis
    proof cases
      case 1
      then show ?thesis by simp
    next
      case 2
      have "hops es 0 n = Some name" using 2 by simp
      moreover have "map_of es n \<noteq> None" using 2 False by simp
      ultimately show ?thesis unfolding fst_conv snd_conv by blast
    next
      case 3
      then show ?thesis unfolding fst_conv snd_conv by blast
    qed
  qed
next
  case (2 rd es names name iteration)
  then show ?case by simp
next
  case (3 rd es names name iteration key keys)
  note rd = "3.prems"(1)
  show ?case
  proof (cases "map_of es key")
    case None
    with "3.prems" "3.IH"(1) [OF None rd] show ?thesis by simp
  next
    case (Some item)
    show ?thesis
    proof (cases "parentOf item = Some name")
      case False
      with "3.prems" Some "3.IH"(6) [OF Some False rd] show ?thesis by simp
    next
      case True
      obtain ok st1 where d: "del rd (es, names) key (iteration + 1) = (ok, st1)"
        by (cases "del rd (es, names) key (iteration + 1)") auto
      from del_frame(1) [OF rd, of "(es, names)" key "iteration + 1"] d
      have f1: "fst st1 = es" by simp
      have A: "n \<in> set names \<or> (map_of es n \<noteq> None \<and> (\<exists>k. hops es (Suc k) n = Some name))"
        if "n \<in> set (snd st1)"
      proof -
        from "3.IH"(2) [OF Some True rd rd] d that
        have "n \<in> set names \<or> (map_of es n \<noteq> None \<and> (\<exists>k. hops es k n = Some key))"
          by simp
        then show ?thesis using hops_step_last [OF _ Some True] by blast
      qed
      show ?thesis
      proof (cases ok)
        case False
        with "3.prems" Some True d rd have "n \<in> set (snd st1)" by simp
        from A [OF this] show ?thesis by simp
      next
        case ok: True
        with "3.prems" Some True d rd
        have "n \<in> set (snd (snd (delLoop rd st1 name iteration keys)))" by simp
        from "3.IH"(3) [OF Some True rd d [symmetric] ok rd this] f1
        have "n \<in> set (snd st1)
              \<or> (map_of es n \<noteq> None \<and> (\<exists>k. hops es (Suc k) n = Some name))"
          by simp
        with A show ?thesis by auto
      qed
    qed
  qed
qed

lemma fold_delete_filter:
  "fold AList.delete names es = filter (\<lambda>e. fst e \<notin> set names) es"
proof (induction names arbitrary: es)
  case Nil
  show ?case by simp
next
  case (Cons x xs)
  have "AList.delete x es = filter (\<lambda>e. fst e \<noteq> x) es"
    by (auto simp: AList.delete_eq intro: filter_cong)
  with Cons show ?case by (auto intro: filter_cong)
qed

lemma remove_icons_cascade:
  "remove_icons es name (Deps True) =
     (case del (Deps True) (es, []) name 0 of
        (ok, es1, names) \<Rightarrow> if ok then (length names, fold AList.delete names es1) else (0, es1))"
  by (simp add: remove_icons_def Let_def split: prod.splits)

lemma map_of_filter_keys:
  "map_of (filter (\<lambda>e. fst e \<notin> D) es) k = (if k \<in> D then None else map_of es k)"
  by (induction es) auto

lemma length_filter_keys:
  assumes "distinct (map fst es)" and "D \<subseteq> fst ` set es" and "finite D"
  shows "length (filter (\<lambda>e. fst e \<notin> D) es) + card D = length es"
proof -
  have "distinct (map fst (filter (\<lambda>e. fst e \<in> D) es))"
    using assms(1) by (simp add: distinct_map_filter)
  moreover have "set (map fst (filter (\<lambda>e. fst e \<in> D) es)) = D"
    using assms(2) by auto
  ultimately have "card D = length (map fst (filter (\<lambda>e. fst e \<in> D) es))"
    using distinct_card by metis
  then have "card D = length (filter (\<lambda>e. fst e \<in> D) es)" by simp
  moreover have "length es = length (filter (\<lambda>e. fst e \<in> D) es)
      + length (filter (\<lambda>e. \<not> fst e \<in> D) es)"
    using sum_length_filter_compl [of "\<lambda>e. fst e \<in> D" es] by simp
  ultimately show ?thesis by simp
qed

lemma del_fails_unchanged:
  "del (Deps True) (es, names) name i = (ok, es1, names1) \<Longrightarrow> es1 = es"
  using del_frame(1) [of "Deps True" "(es, names)" name i] by simp

lemma remove_cascade_failure_unchanged:
  "fst (remove_icons es name (Deps True)) = 0 \<Longrightarrow> snd (remove_icons es name (Deps True)) = es"
proof -
  assume z: "fst (remove_icons es name (Deps True)) = 0"
  obtain b es1 names where d: "del (Deps True) (es, []) name 0 = (b, es1, names)"
    by (cases "del (Deps True) (es, []) name 0") auto
  have es1: "es1 = es" using del_fails_unchanged [OF d] .
  show ?thesis
  proof (cases b)
    case False
    with d es1 show ?thesis by (simp add: remove_icons_cascade)
  next
    case True
    with z d have "names = []" by (simp add: remove_icons_cascade)
    with d es1 True show ?thesis by (simp add: remove_icons_cascade)
  qed
qed

text \<open>
  Claim C3. When \<^verbatim>\<open>remove(name, true)\<close> succeeds (returns a non-zero count), \<open>name\<close>
  was an entry, and the store afterwards is the store before without \<open>name\<close> and without
  every entry whose parent chain leads to \<open>name\<close>, all other entries unchanged and in
  their order. The deleted names are all entries of the store, the count returned is their
  number (the number of entries the store lost), and \<^verbatim>\<open>resolve\<close> is absent for each of
  them afterwards.
\<close>

theorem remove_cascade_deletes_dependents:
  assumes rm: "remove_icons es name (Deps True) = (n, es')" and ok: "n \<noteq> 0"
  shows "map_of es name \<noteq> None
    \<and> es' = filter (\<lambda>e. fst e \<notin> {m. \<exists>k. hops es k m = Some name}) es
    \<and> (\<forall>m. map_of es' m = (if \<exists>k. hops es k m = Some name then None else map_of es m))
    \<and> {m. \<exists>k. hops es k m = Some name} \<subseteq> fst ` set es
    \<and> n = card {m. \<exists>k. hops es k m = Some name}
    \<and> (distinct (map fst es) \<longrightarrow> length es' + n = length es)
    \<and> (\<forall>m. (\<exists>k. hops es k m = Some name) \<longrightarrow> resolve es' m = None)"
proof -
  let ?D = "{m. \<exists>k. hops es k m = Some name}"
  obtain b es1 names where d: "del (Deps True) (es, []) name 0 = (b, es1, names)"
    by (cases "del (Deps True) (es, []) name 0") auto
  have es1: "es1 = es" using del_fails_unchanged [OF d] .
  have b: b using rm ok d by (auto simp: remove_icons_cascade split: if_splits)
  have n: "n = length names" and es': "es' = fold AList.delete names es"
    using rm d b es1 by (auto simp: remove_icons_cascade)
  have dist: "distinct names"
    using del_frame(1) [of "Deps True" "(es, [])" name 0] d by simp
  have sub1: "?D \<subseteq> set names"
    using del_complete(1) [of "Deps True" "(es, [])" name 0] d b by auto
  have sub2: "set names \<subseteq> ?D" and dom: "set names \<subseteq> fst ` set es"
    using del_sound(1) [of "Deps True" _ "(es, [])" name 0] d
    by (auto simp: map_of_eq_None_iff)
  have D: "?D = set names" using sub1 sub2 by blast
  have name_in: "name \<in> ?D"
    using hops.simps(1) [of es name] by blast
  have c1: "map_of es name \<noteq> None"
    using name_in D dom by (auto simp: map_of_eq_None_iff)
  have c2: "es' = filter (\<lambda>e. fst e \<notin> ?D) es"
    unfolding D es' by (rule fold_delete_filter)
  have c3: "\<forall>m. map_of es' m = (if \<exists>k. hops es k m = Some name then None else map_of es m)"
    unfolding c2 using map_of_filter_keys [of ?D es] by simp
  have c4: "?D \<subseteq> fst ` set es" using D dom by simp
  have c5: "n = card ?D" unfolding D n using dist by (simp add: distinct_card)
  have c6: "distinct (map fst es) \<longrightarrow> length es' + n = length es"
    unfolding c2 c5 using length_filter_keys [of es ?D] c4 D by auto
  have c7: "\<forall>m. (\<exists>k. hops es k m = Some name) \<longrightarrow> resolve es' m = None"
    using c3 by (simp add: resolve_def getIcon_missing)
  from c1 c2 c3 c4 c5 c6 c7 show ?thesis by blast
qed

theorem remove_cascade_deletes_dependents_witness:
  "remove_icons
     [(''x'', Icon ''<g/>'' Map.empty [] []), (''a'', Alias ''x'' []),
      (''v'', Variation ''a'' (Map.empty(PRotate \<mapsto> Num 1)) []),
      (''y'', Icon ''<path/>'' Map.empty [] [])]
     ''x'' (Deps True)
     = (3, [(''y'', Icon ''<path/>'' Map.empty [] [])])
   \<and> (3 :: nat) \<noteq> 0
   \<and> hops
       [(''x'', Icon ''<g/>'' Map.empty [] []), (''a'', Alias ''x'' []),
        (''v'', Variation ''a'' (Map.empty(PRotate \<mapsto> Num 1)) []),
        (''y'', Icon ''<path/>'' Map.empty [] [])]
       2 ''v'' = Some ''x''
   \<and> resolve [(''y'', Icon ''<path/>'' Map.empty [] [])] ''v'' = None
   \<and> map_of [(''y'', Icon ''<path/>'' Map.empty [] [])] ''y''
       = Some (Icon ''<path/>'' Map.empty [] [])"
proof -
  let ?es = "[(''x'', Icon ''<g/>'' Map.empty [] []), (''a'', Alias ''x'' []),
      (''v'', Variation ''a'' (Map.empty(PRotate \<mapsto> Num 1)) []),
      (''y'', Icon ''<path/>'' Map.empty [] [])]"
  let ?es' = "[(''y'', Icon ''<path/>'' Map.empty [] [])]"
  have rm: "remove_icons ?es ''x'' (Deps True) = (3, ?es')"
    by (simp add: remove_icons_def del.simps maxIteration_def)
  have nz: "(3 :: nat) \<noteq> 0" by simp
  have h: "hops ?es 2 ''v'' = Some ''x''" by (simp add: eval_nat_numeral)
  from remove_cascade_deletes_dependents [OF rm nz] h
  have "resolve ?es' ''v'' = None" by blast
  with rm nz h show ?thesis by simp
qed

text \<open>
  Claim C4. The walk of \<^verbatim>\<open>remove(name, true)\<close> reaches depth seven exactly when some
  entry lies seven parent steps below \<open>name\<close>. Whenever there is such an entry the call
  returns 0 and the store it leaves is the store it was given: nothing that was visited
  before the walk stopped is deleted.
\<close>

theorem remove_cascade_all_or_nothing:
  assumes "hops es (Suc maxIteration) n = Some name"
  shows "remove_icons es name (Deps True) = (0, es)"
proof -
  obtain b es1 names where d: "del (Deps True) (es, []) name 0 = (b, es1, names)"
    by (cases "del (Deps True) (es, []) name 0") auto
  have es1: "es1 = es" using del_fails_unchanged [OF d] .
  have "\<not> b"
  proof
    assume b
    with del_complete(1) [of "Deps True" "(es, [])" name 0] d assms
    have "0 + Suc maxIteration \<le> maxIteration" by auto
    then show False by simp
  qed
  with d es1 show ?thesis by (simp add: remove_icons_cascade)
qed

theorem remove_cascade_all_or_nothing_witness:
  "hops
     [(''x'', Icon ''<g/>'' Map.empty [] []), (''a1'', Alias ''x'' []),
      (''a2'', Alias ''a1'' []), (''a3'', Alias ''a2'' []), (''a4'', Alias ''a3'' []),
      (''a5'', Alias ''a4'' []), (''a6'', Alias ''a5'' []), (''a7'', Alias ''a6'' [])]
     (Suc maxIteration) ''a7'' = Some ''x''
   \<and> remove_icons
       [(''x'', Icon ''<g/>'' Map.empty [] []), (''a1'', Alias ''x'' []),
        (''a2'', Alias ''a1'' []), (''a3'', Alias ''a2'' []), (''a4'', Alias ''a3'' []),
        (''a5'', Alias ''a4'' []), (''a6'', Alias ''a5'' []), (''a7'', Alias ''a6'' [])]
       ''x'' (Deps True)
     = (0,
        [(''x'', Icon ''<g/>'' Map.empty [] []), (''a1'', Alias ''x'' []),
         (''a2'', Alias ''a1'' []), (''a3'', Alias ''a2'' []), (''a4'', Alias ''a3'' []),
         (''a5'', Alias ''a4'' []), (''a6'', Alias ''a5'' []), (''a7'', Alias ''a6'' [])])"
proof -
  let ?es = "[(''x'', Icon ''<g/>'' Map.empty [] []), (''a1'', Alias ''x'' []),
      (''a2'', Alias ''a1'' []), (''a3'', Alias ''a2'' []), (''a4'', Alias ''a3'' []),
      (''a5'', Alias ''a4'' []), (''a6'', Alias ''a5'' []), (''a7'', Alias ''a6'' [])]"
  have h: "hops ?es (Suc maxIteration) ''a7'' = Some ''x''"
    by (simp add: maxIteration_def eval_nat_numeral)
  from remove_cascade_all_or_nothing [OF h] h show ?thesis by simp
qed

section \<open>Renaming\<close>

text \<open>
  Claim C5 holds when the removal of the occupant fails, and when the old name is missing
  and the new name is free: the store is then returned as it was.
\<close>

lemma rename_removal_fails:
  "map_of es newName \<noteq> None \<Longrightarrow> fst (remove_icons es newName (Deps True)) = 0 \<Longrightarrow>
   rename es oldName newName = (False, es)"
  using remove_cascade_failure_unchanged [of es newName]
  by (cases "remove_icons es newName (Deps True)") (simp add: rename_def)

lemma rename_missing_free:
  "map_of es newName = None \<Longrightarrow> map_of es oldName = None \<Longrightarrow>
   rename es oldName newName = (False, es)"
  by (simp add: rename_def renameEntry_def)

text \<open>
  Claim C5 fails on the code when the new name is occupied and the old name is missing.
  In the store that holds only the icon \<open>x\<close>, \<^verbatim>\<open>rename('missing', 'x')\<close> first removes
  \<open>x\<close>, then finds no entry \<open>missing\<close> and returns false: the store is left empty.
  The same happens when the old name is a dependent of the occupant, which the cascade
  deletes: \<^verbatim>\<open>rename('a', 'x')\<close> with \<open>a\<close> an alias of \<open>x\<close> returns false and
  leaves nothing.
\<close>

theorem rename_failure_removes_occupant:
  "rename [(''x'', Icon ''<g/>'' Map.empty [] [])] ''missing'' ''x'' = (False, [])
   \<and> rename [(''x'', Icon ''<g/>'' Map.empty [] []), (''a'', Alias ''x'' [])] ''a'' ''x''
       = (False, [])"
  by (simp add: rename_def renameEntry_def remove_icons_def del.simps maxIteration_def)

section \<open>Resolution: merging a variation onto its parent\<close>

lemma allKeys_complete: "k \<in> set allKeys"
  by (cases k) (simp_all add: allKeys_def)

lemma distinct_allKeys: "distinct allKeys"
  by (simp add: allKeys_def)

lemma keysOf_set: "k \<in> set (keysOf p) \<longleftrightarrow> p k \<noteq> None"
  by (simp add: keysOf_def allKeys_complete)

lemma distinct_keysOf: "distinct (keysOf p)"
  by (simp add: keysOf_def distinct_allKeys)

lemma mergeKey_props:
  "rprops (mergeKey p a parent) k = (if k = a then mergedValue p (rprops parent) k else rprops parent k)"
  by (simp add: mergeKey_def mergedValue_def split: option.splits)

lemma mergeKey_body: "rbody (mergeKey p a parent) = rbody parent"
  by (simp add: mergeKey_def split: option.splits)

lemma mergedValue_cong: "q k = q' k \<Longrightarrow> mergedValue p q k = mergedValue p q' k"
  by (auto simp: mergedValue_def split: option.splits)

lemma fold_mergeKey:
  "distinct ks \<Longrightarrow>
   rbody (fold (mergeKey p) ks parent) = rbody parent
   \<and> rprops (fold (mergeKey p) ks parent) k
       = (if k \<in> set ks then mergedValue p (rprops parent) k else rprops parent k)"
proof (induction ks arbitrary: parent)
  case Nil
  show ?case by simp
next
  case (Cons a ks)
  then have "a \<notin> set ks" "distinct ks" by simp_all
  with Cons.IH [of "mergeKey p a parent"] show ?case
    by (auto simp: mergeKey_props mergeKey_body intro: mergedValue_cong)
qed

lemma mergeProps_props:
  "rprops (mergeProps p parent) k = mergedValue p (rprops parent) k"
  using fold_mergeKey [OF distinct_keysOf, of p p parent k]
  by (auto simp: mergeProps_def keysOf_set mergedValue_def)

lemma mergeProps_body: "rbody (mergeProps p parent) = rbody parent"
  using fold_mergeKey [OF distinct_keysOf, of p p parent] by (simp add: mergeProps_def)

lemma getIcon_shallower:
  "getIcon es n (Suc i) = Some r \<Longrightarrow> getIcon es n i = Some r"
proof (induction es n i arbitrary: r rule: getIcon.induct)
  case (1 es name iteration)
  from "1.prems" have le: "Suc iteration \<le> maxIteration"
    using getIcon_deep [of "Suc iteration" es name] by (cases "maxIteration < Suc iteration") auto
  then have le0: "iteration \<le> maxIteration" by simp
  from "1.prems" obtain item where item: "map_of es name = Some item"
    using getIcon_missing [of es name "Suc iteration"] by (cases "map_of es name") auto
  have ng: "\<not> maxIteration < iteration" using le0 by simp
  show ?case
  proof (cases item)
    case (Icon b p cs cats)
    with item le le0 "1.prems" show ?thesis by (simp add: getIcon_Icon)
  next
    case (Alias par cs)
    with item le le0 "1.prems" have "getIcon es par (Suc (Suc iteration)) = Some r"
      by (simp add: getIcon_Alias)
    with "1.IH"(1) [OF item ng Alias] have "getIcon es par (Suc iteration) = Some r" by simp
    with item Alias le0 show ?thesis by (simp add: getIcon_Alias)
  next
    case (Variation par p cs)
    with item le "1.prems" obtain q where q: "getIcon es par (Suc (Suc iteration)) = Some q"
      and r: "r = mergeProps p q"
      by (auto simp: getIcon_Variation)
    with "1.IH"(2) [OF item ng Variation] have "getIcon es par (Suc iteration) = Some q" by simp
    with item Variation le0 r show ?thesis by (simp add: getIcon_Variation)
  qed
qed

lemma jsRem_nonneg: "0 \<le> a \<Longrightarrow> jsRem a 4 = a mod 4"
  by (simp add: jsRem_def sgn_if)

lemma resolve_Variation:
  assumes v: "map_of es name = Some (Variation par p cs)" and ok: "resolve es name \<noteq> None"
  shows "\<exists>parent. resolve es par = Some parent \<and> getIcon es par (Suc 0) = Some parent
           \<and> resolve es name = Some (mergeProps p parent)"
proof -
  from ok v obtain parent where parent: "getIcon es par (Suc 0) = Some parent"
    and r: "resolve es name = Some (mergeProps p parent)"
    by (auto simp: resolve_def getIcon_Variation)
  from getIcon_shallower [OF parent] have "resolve es par = Some parent"
    by (simp add: resolve_def)
  with parent r show ?thesis by blast
qed

lemma jsRem_neg: "a < 0 \<Longrightarrow> jsRem a 4 = - ((- a) mod 4)"
  by (simp add: jsRem_def sgn_if)

lemma stack_step:
  assumes v: "map_of es name = Some (Variation par p cs)" and i: "i \<le> maxIteration"
    and par: "getIcon es par (Suc i) = Some parent"
    and rot: "p PRotate = Some (Num 1)"
    and prot: "rprops parent PRotate = Some (Num a)" and a: "0 \<le> a"
  shows "\<exists>r. getIcon es name i = Some r \<and> rprops r PRotate = Some (Num ((a + 1) mod 4))"
proof -
  have "getIcon es name i = Some (mergeProps p parent)"
    using v i par by (simp add: getIcon_Variation)
  moreover have "rprops (mergeProps p parent) PRotate = Some (Num ((a + 1) mod 4))"
    using rot prot a by (simp add: mergeProps_props mergedValue_def jsRem_nonneg)
  ultimately show ?thesis by blast
qed

text \<open>
  Claim C1, as amended. For a variation entry that resolves (its parent resolving within
  the depth bound, to \<open>parent\<close>), the result has the body of the parent, and for every
  property key: a property the variation does not carry, or carries with a falsy value
  (the number 0, the flag false), is left as the parent has it (absent if the parent
  lacks it); a property with a truthy value is copied verbatim when the parent lacks it;
  when the parent has it, the flags hFlip and vFlip are set to the negation of the
  parent's flag, and every property other than these and the rotation takes the
  variation's value. When both carry a rotation, the two being safe integers with a safe
  sum, the result is the remainder \<^verbatim>\<open>%\<close> of the sum by 4: the sum modulo 4 when the sum is
  not negative, and minus the negated sum modulo 4 when it is negative. Stacked
  variations that each carry rotation 1 over a base icon with rotation 0 (stored, or
  absent) resolve to rotation 2 after two, 3 after three and 0 after four.
\<close>

theorem resolve_merges_truthy_overrides:
  "(map_of es name = Some (Variation par p cs) \<and> resolve es name \<noteq> None \<longrightarrow>
      (\<exists>parent r.
         resolve es par = Some parent \<and> resolve es name = Some r \<and> rbody r = rbody parent
         \<and> (\<forall>attr.
              (p attr = None \<longrightarrow> rprops r attr = rprops parent attr)
              \<and> (\<forall>v. p attr = Some v \<and> \<not> truthy v \<longrightarrow> rprops r attr = rprops parent attr)
              \<and> (\<forall>v. p attr = Some v \<and> truthy v \<and> rprops parent attr = None \<longrightarrow>
                    rprops r attr = Some v)
              \<and> (\<forall>v pv. p attr = Some v \<and> truthy v \<and> rprops parent attr = Some pv
                      \<and> attr \<noteq> PRotate \<longrightarrow>
                    rprops r attr =
                      Some (if attr = PHFlip \<or> attr = PVFlip then Flag (\<not> truthy pv) else v)))
         \<and> (\<forall>a b. p PRotate = Some (Num b) \<and> b \<noteq> 0 \<and> rprops parent PRotate = Some (Num a)
                \<and> safeInteger a \<and> safeInteger b \<and> safeInteger (a + b) \<longrightarrow>
                rprops r PRotate = Some (Num (jsRem (a + b) 4))
                \<and> (0 \<le> a + b \<longrightarrow> rprops r PRotate = Some (Num ((a + b) mod 4)))
                \<and> (a + b < 0 \<longrightarrow> rprops r PRotate = Some (Num (- ((- (a + b)) mod 4)))))))
   \<and> (map_of es x = Some (Icon b0 p0 cs0 cats0)
        \<and> (p0 PRotate = None \<or> p0 PRotate = Some (Num 0))
        \<and> map_of es v1 = Some (Variation x q1 cs1) \<and> q1 PRotate = Some (Num 1)
        \<and> map_of es v2 = Some (Variation v1 q2 cs2) \<and> q2 PRotate = Some (Num 1)
        \<and> map_of es v3 = Some (Variation v2 q3 cs3) \<and> q3 PRotate = Some (Num 1)
        \<and> map_of es v4 = Some (Variation v3 q4 cs4) \<and> q4 PRotate = Some (Num 1) \<longrightarrow>
        map_option (\<lambda>r. rprops r PRotate) (resolve es v2) = Some (Some (Num 2))
        \<and> map_option (\<lambda>r. rprops r PRotate) (resolve es v3) = Some (Some (Num 3))
        \<and> map_option (\<lambda>r. rprops r PRotate) (resolve es v4) = Some (Some (Num 0)))"
proof (intro conjI impI)
  assume "map_of es name = Some (Variation par p cs) \<and> resolve es name \<noteq> None"
  then obtain parent where parent: "resolve es par = Some parent"
    and r: "resolve es name = Some (mergeProps p parent)"
    using resolve_Variation by blast
  let ?r = "mergeProps p parent"
  have rules: "(p attr = None \<longrightarrow> rprops ?r attr = rprops parent attr)
      \<and> (\<forall>v. p attr = Some v \<and> \<not> truthy v \<longrightarrow> rprops ?r attr = rprops parent attr)
      \<and> (\<forall>v. p attr = Some v \<and> truthy v \<and> rprops parent attr = None \<longrightarrow>
             rprops ?r attr = Some v)
      \<and> (\<forall>v pv. p attr = Some v \<and> truthy v \<and> rprops parent attr = Some pv
              \<and> attr \<noteq> PRotate \<longrightarrow>
             rprops ?r attr =
               Some (if attr = PHFlip \<or> attr = PVFlip then Flag (\<not> truthy pv) else v))"
    for attr
    by (cases attr) (auto simp: mergeProps_props mergedValue_def)
  have rot: "\<forall>a b. p PRotate = Some (Num b) \<and> b \<noteq> 0 \<and> rprops parent PRotate = Some (Num a)
                \<and> safeInteger a \<and> safeInteger b \<and> safeInteger (a + b) \<longrightarrow>
                rprops ?r PRotate = Some (Num (jsRem (a + b) 4))
                \<and> (0 \<le> a + b \<longrightarrow> rprops ?r PRotate = Some (Num ((a + b) mod 4)))
                \<and> (a + b < 0 \<longrightarrow> rprops ?r PRotate = Some (Num (- ((- (a + b)) mod 4))))"
  proof (intro allI impI)
    fix a b
    assume h: "p PRotate = Some (Num b) \<and> b \<noteq> 0 \<and> rprops parent PRotate = Some (Num a)
                \<and> safeInteger a \<and> safeInteger b \<and> safeInteger (a + b)"
    then have m: "rprops ?r PRotate = Some (Num (jsRem (a + b) 4))"
      by (simp add: mergeProps_props mergedValue_def)
    show "rprops ?r PRotate = Some (Num (jsRem (a + b) 4))
        \<and> (0 \<le> a + b \<longrightarrow> rprops ?r PRotate = Some (Num ((a + b) mod 4)))
        \<and> (a + b < 0 \<longrightarrow> rprops ?r PRotate = Some (Num (- ((- (a + b)) mod 4))))"
      using m jsRem_nonneg [of "a + b"] jsRem_neg [of "a + b"] by simp
  qed
  from parent r rules rot mergeProps_body [of p parent]
  show "\<exists>parent r.
         resolve es par = Some parent \<and> resolve es name = Some r \<and> rbody r = rbody parent
         \<and> (\<forall>attr.
              (p attr = None \<longrightarrow> rprops r attr = rprops parent attr)
              \<and> (\<forall>v. p attr = Some v \<and> \<not> truthy v \<longrightarrow> rprops r attr = rprops parent attr)
              \<and> (\<forall>v. p attr = Some v \<and> truthy v \<and> rprops parent attr = None \<longrightarrow>
                    rprops r attr = Some v)
              \<and> (\<forall>v pv. p attr = Some v \<and> truthy v \<and> rprops parent attr = Some pv
                      \<and> attr \<noteq> PRotate \<longrightarrow>
                    rprops r attr =
                      Some (if attr = PHFlip \<or> attr = PVFlip then Flag (\<not> truthy pv) else v)))
         \<and> (\<forall>a b. p PRotate = Some (Num b) \<and> b \<noteq> 0 \<and> rprops parent PRotate = Some (Num a)
                \<and> safeInteger a \<and> safeInteger b \<and> safeInteger (a + b) \<longrightarrow>
                rprops r PRotate = Some (Num (jsRem (a + b) 4))
                \<and> (0 \<le> a + b \<longrightarrow> rprops r PRotate = Some (Num ((a + b) mod 4)))
                \<and> (a + b < 0 \<longrightarrow> rprops r PRotate = Some (Num (- ((- (a + b)) mod 4)))))"
    by blast
next
  assume h: "map_of es x = Some (Icon b0 p0 cs0 cats0)
        \<and> (p0 PRotate = None \<or> p0 PRotate = Some (Num 0))
        \<and> map_of es v1 = Some (Variation x q1 cs1) \<and> q1 PRotate = Some (Num 1)
        \<and> map_of es v2 = Some (Variation v1 q2 cs2) \<and> q2 PRotate = Some (Num 1)
        \<and> map_of es v3 = Some (Variation v2 q3 cs3) \<and> q3 PRotate = Some (Num 1)
        \<and> map_of es v4 = Some (Variation v3 q4 cs4) \<and> q4 PRotate = Some (Num 1)"
  have base: "getIcon es x i = Some \<lparr>rbody = b0, rprops = p0\<rparr>" if "i \<le> maxIteration" for i
    using h that by (simp add: getIcon_Icon)
  have one: "\<exists>r. getIcon es v1 i = Some r \<and> rprops r PRotate = Some (Num 1)"
    if "Suc i \<le> maxIteration" for i
  proof -
    have "getIcon es v1 i = Some (mergeProps q1 \<lparr>rbody = b0, rprops = p0\<rparr>)"
      using h that base [of "Suc i"] by (simp add: getIcon_Variation)
    moreover have "rprops (mergeProps q1 \<lparr>rbody = b0, rprops = p0\<rparr>) PRotate = Some (Num 1)"
      using h by (auto simp: mergeProps_props mergedValue_def jsRem_def)
    ultimately show ?thesis by blast
  qed
  have two: "\<exists>r. getIcon es v2 i = Some r \<and> rprops r PRotate = Some (Num 2)"
    if "Suc (Suc i) \<le> maxIteration" for i
  proof -
    from one [of "Suc i"] that obtain r where "getIcon es v1 (Suc i) = Some r"
      "rprops r PRotate = Some (Num 1)" by auto
    from stack_step [OF _ _ this(1) _ this(2)] h that show ?thesis by fastforce
  qed
  have three: "\<exists>r. getIcon es v3 i = Some r \<and> rprops r PRotate = Some (Num 3)"
    if "Suc (Suc (Suc i)) \<le> maxIteration" for i
  proof -
    from two [of "Suc i"] that obtain r where "getIcon es v2 (Suc i) = Some r"
      "rprops r PRotate = Some (Num 2)" by auto
    from stack_step [OF _ _ this(1) _ this(2)] h that show ?thesis by fastforce
  qed
  have four: "\<exists>r. getIcon es v4 0 = Some r \<and> rprops r PRotate = Some (Num 0)"
  proof -
    from three [of "Suc 0"] obtain r where "getIcon es v3 (Suc 0) = Some r"
      "rprops r PRotate = Some (Num 3)" by (auto simp: maxIteration_def)
    from stack_step [OF _ _ this(1) _ this(2)] h show ?thesis by fastforce
  qed
  from two [of 0] show "map_option (\<lambda>r. rprops r PRotate) (resolve es v2) = Some (Some (Num 2))"
    by (auto simp: resolve_def maxIteration_def)
  from three [of 0] show "map_option (\<lambda>r. rprops r PRotate) (resolve es v3) = Some (Some (Num 3))"
    by (auto simp: resolve_def maxIteration_def)
  from four show "map_option (\<lambda>r. rprops r PRotate) (resolve es v4) = Some (Some (Num 0))"
    by (auto simp: resolve_def)
qed


theorem resolve_merges_truthy_overrides_witness:
  "map_of
     [(''x'', Icon ''<g/>'' Map.empty [] []),
      (''v1'', Variation ''x'' (Map.empty(PRotate \<mapsto> Num 1)) []),
      (''v2'', Variation ''v1'' (Map.empty(PRotate \<mapsto> Num 1)) []),
      (''v3'', Variation ''v2'' (Map.empty(PRotate \<mapsto> Num 1)) []),
      (''v4'', Variation ''v3'' (Map.empty(PRotate \<mapsto> Num 1)) [])]
     ''v2''
   = Some (Variation ''v1'' (Map.empty(PRotate \<mapsto> Num 1)) [])
   \<and> resolve
        [(''x'', Icon ''<g/>'' Map.empty [] []),
         (''v1'', Variation ''x'' (Map.empty(PRotate \<mapsto> Num 1)) []),
         (''v2'', Variation ''v1'' (Map.empty(PRotate \<mapsto> Num 1)) []),
         (''v3'', Variation ''v2'' (Map.empty(PRotate \<mapsto> Num 1)) []),
         (''v4'', Variation ''v3'' (Map.empty(PRotate \<mapsto> Num 1)) [])]
        ''v2'' \<noteq> None
   \<and> safeInteger 1 \<and> safeInteger (1 + 1)
   \<and> map_option (\<lambda>r. rprops r PRotate)
        (resolve
           [(''x'', Icon ''<g/>'' Map.empty [] []),
            (''v1'', Variation ''x'' (Map.empty(PRotate \<mapsto> Num 1)) []),
            (''v2'', Variation ''v1'' (Map.empty(PRotate \<mapsto> Num 1)) []),
            (''v3'', Variation ''v2'' (Map.empty(PRotate \<mapsto> Num 1)) []),
            (''v4'', Variation ''v3'' (Map.empty(PRotate \<mapsto> Num 1)) [])]
           ''v2'')
      = Some (Some (Num ((1 + 1) mod 4)))
   \<and> map_option (\<lambda>r. rprops r PRotate)
        (resolve
           [(''x'', Icon ''<g/>'' Map.empty [] []),
            (''v1'', Variation ''x'' (Map.empty(PRotate \<mapsto> Num 1)) []),
            (''v2'', Variation ''v1'' (Map.empty(PRotate \<mapsto> Num 1)) []),
            (''v3'', Variation ''v2'' (Map.empty(PRotate \<mapsto> Num 1)) []),
            (''v4'', Variation ''v3'' (Map.empty(PRotate \<mapsto> Num 1)) [])]
           ''v4'')
      = Some (Some (Num 0))"
proof -
  let ?q = "Map.empty(PRotate \<mapsto> Num 1)"
  let ?es = "[(''x'', Icon ''<g/>'' Map.empty [] []),
      (''v1'', Variation ''x'' ?q []),
      (''v2'', Variation ''v1'' ?q []),
      (''v3'', Variation ''v2'' ?q []),
      (''v4'', Variation ''v3'' ?q [])]"
  have m: "map_of ?es ''v2'' = Some (Variation ''v1'' ?q [])"
    by simp
  have r: "resolve ?es ''v2'' \<noteq> None"
    by (simp add: resolve_def getIcon.simps maxIteration_def)
  have p1: "map_option (\<lambda>r. rprops r PRotate) (resolve ?es ''v1'') = Some (Some (Num 1))"
    by (simp add: resolve_def getIcon.simps maxIteration_def mergeProps_def keysOf_def
        allKeys_def mergeKey_def)
  have s: "safeInteger 1 \<and> safeInteger (1 + 1)"
    by (simp add: safeInteger_def maxSafeInteger_def)
  have q: "?q PRotate = Some (Num 1) \<and> (1::int) \<noteq> 0"
    by simp
  from resolve_merges_truthy_overrides
    [where es = ?es and name = "''v2''" and par = "''v1''" and p = ?q and cs = "[]",
      THEN conjunct1, rule_format, OF conjI [OF m r]]
  obtain parent r' where pr: "resolve ?es ''v1'' = Some parent" "resolve ?es ''v2'' = Some r'"
    and rot: "\<forall>a b. ?q PRotate = Some (Num b) \<and> b \<noteq> 0 \<and> rprops parent PRotate = Some (Num a)
                \<and> safeInteger a \<and> safeInteger b \<and> safeInteger (a + b) \<longrightarrow>
                rprops r' PRotate = Some (Num (jsRem (a + b) 4))
                \<and> (0 \<le> a + b \<longrightarrow> rprops r' PRotate = Some (Num ((a + b) mod 4)))
                \<and> (a + b < 0 \<longrightarrow> rprops r' PRotate = Some (Num (- ((- (a + b)) mod 4))))"
    by (elim exE conjE) (rule that, assumption+)
  from p1 pr(1) have par: "rprops parent PRotate = Some (Num 1)"
    by simp
  from rot [rule_format, of 1 1, THEN conjunct2, THEN conjunct1] q s par
  have "rprops r' PRotate = Some (Num ((1 + 1) mod 4))"
    by simp
  with pr(2) have two: "map_option (\<lambda>r. rprops r PRotate) (resolve ?es ''v2'')
      = Some (Some (Num ((1 + 1) mod 4)))"
    by simp
  have stack: "map_of ?es ''x'' = Some (Icon ''<g/>'' Map.empty [] [])
        \<and> ((Map.empty :: Props) PRotate = None \<or> (Map.empty :: Props) PRotate = Some (Num 0))
        \<and> map_of ?es ''v1'' = Some (Variation ''x'' ?q []) \<and> ?q PRotate = Some (Num 1)
        \<and> map_of ?es ''v2'' = Some (Variation ''v1'' ?q []) \<and> ?q PRotate = Some (Num 1)
        \<and> map_of ?es ''v3'' = Some (Variation ''v2'' ?q []) \<and> ?q PRotate = Some (Num 1)
        \<and> map_of ?es ''v4'' = Some (Variation ''v3'' ?q []) \<and> ?q PRotate = Some (Num 1)"
    by simp
  from resolve_merges_truthy_overrides
    [of ?es "''v2''" "''v1''" ?q "[]" "''x''" "''<g/>''" Map.empty "[]" "[]"
        "''v1''" ?q "[]" "''v2''" ?q "[]" "''v3''" ?q "[]" "''v4''" ?q "[]"] stack
  have four: "map_option (\<lambda>r. rprops r PRotate) (resolve ?es ''v4'') = Some (Some (Num 0))"
    by blast
  from m r s two four show ?thesis
    by blast
qed

text \<open>
  Claim C1 as stated fails in two ways. First, for an overriding property whose value is
  falsy: the variation \<open>v\<close> of the icon \<open>x\<close> carries left = 0, top = 0 and hFlip = false;
  \<open>x\<close> has left = 4 and hFlip = true, and no top. The resolved \<open>v\<close> has left = 4 (not
  overwritten by 0), no top (0 is not copied) and hFlip = true (not negated). Second,
  for a negative sum of rotations: the variation \<open>w\<close> with rotation -3 of an icon with
  rotation 1 resolves to rotation -2, the remainder of the sum -2 by 4, while the sum
  wrapped modulo 4 is 2; all three numbers are safe integers.
\<close>

theorem resolve_merge_as_stated_counterexample:
  "map_option (\<lambda>r. (rprops r PLeft, rprops r PTop, rprops r PHFlip))
     (resolve
        [(''x'', Icon ''<g/>'' (Map.empty(PLeft \<mapsto> Num 4, PHFlip \<mapsto> Flag True)) [] []),
         (''v'', Variation ''x''
            (Map.empty(PLeft \<mapsto> Num 0, PTop \<mapsto> Num 0, PHFlip \<mapsto> Flag False)) [])]
        ''v'')
   = Some (Some (Num 4), None, Some (Flag True))
   \<and> map_option (\<lambda>r. rprops r PRotate)
       (resolve
          [(''x'', Icon ''<g/>'' (Map.empty(PRotate \<mapsto> Num 1)) [] []),
           (''w'', Variation ''x'' (Map.empty(PRotate \<mapsto> Num (- 3))) [])]
          ''w'')
     = Some (Some (Num (- 2)))
   \<and> safeInteger 1 \<and> safeInteger (- 3) \<and> safeInteger (1 + - 3)
   \<and> ((1::int) + - 3) mod 4 = 2"
  by (simp add: resolve_def getIcon.simps maxIteration_def mergeProps_def keysOf_def
      allKeys_def mergeKey_def jsRem_def safeInteger_def maxSafeInteger_def)


section \<open>Loading the theme tables\<close>

lemma update_fresh: "k \<notin> fst ` set al \<Longrightarrow> AList.update k v al = al @ [(k, v)]"
  by (induction al) auto

lemma fold_update_distinct:
  "distinct (map fst items) \<Longrightarrow> fst ` set items \<inter> fst ` set acc = {} \<Longrightarrow>
   fold (\<lambda>(key, v) tbl. AList.update key v tbl) items acc = acc @ items"
proof (induction items arbitrary: acc)
  case Nil
  show ?case by simp
next
  case (Cons a items)
  obtain k v where a: "a = (k, v)" by (cases a)
  from Cons.prems a have fresh: "k \<notin> fst ` set acc" by auto
  have "fst ` set items \<inter> fst ` set (acc @ [(k, v)]) = {}"
    using Cons.prems a by auto
  with Cons.IH [of "acc @ [(k, v)]"] Cons.prems a fresh show ?case
    by (simp add: update_fresh)
qed

lemma fold_update_keys:
  "fst ` set (fold (\<lambda>(key, v) tbl. AList.update key v tbl) items acc)
     = fst ` set acc \<union> fst ` set items"
proof (induction items arbitrary: acc)
  case Nil
  show ?case by simp
next
  case (Cons a items)
  obtain k v where a: "a = (k, v)" by (cases a)
  have "fst ` set (AList.update k v acc) = {k} \<union> fst ` set acc"
    by (rule AList.dom_update)
  with Cons [of "AList.update k v acc"] a show ?case by auto
qed

lemma copyTheme_Some:
  "distinct (map fst items) \<Longrightarrow> copyTheme (Some items) imported = items"
  using fold_update_distinct [of items "[]"] by (simp add: copyTheme_def)

lemma copyTheme_Some_keys:
  "fst ` set (copyTheme (Some items) imported) = fst ` set items"
  using fold_update_keys [of items "[]"] by (simp add: copyTheme_def)

lemma prefixes_load:
  "prefixes (load imp data)
     = copyTheme (d_prefixes data)
         (legacyPrefixes (case d_themes data of None \<Rightarrow> [] | Some ts \<Rightarrow> ts))"
  by (simp add: load_def Let_def)

lemma suffixes_load:
  "suffixes (load imp data)
     = copyTheme (d_suffixes data)
         (legacySuffixes (case d_themes data of None \<Rightarrow> [] | Some ts \<Rightarrow> ts))"
  by (simp add: load_def Let_def)

lemma legacyPrefixes_fold_keys:
  "k \<in> fst ` set acc \<or> (\<exists>key item. (key, item) \<in> set themes \<and> t_prefix item = Some (k @ ''-'')) \<Longrightarrow>
   k \<in> fst ` set
     (fold (\<lambda>(key, item) tbl.
              case t_prefix item of
                None \<Rightarrow> tbl
              | Some pre \<Rightarrow>
                  if pre \<noteq> [] \<and> last pre = CHR ''-''
                  then AList.update (butlast pre) (t_title item) tbl else tbl)
        themes acc)"
proof (induction themes arbitrary: acc)
  case Nil
  then show ?case by simp
next
  case (Cons a themes)
  obtain key item where a: "a = (key, item)" by (cases a)
  let ?acc = "case t_prefix item of
                None \<Rightarrow> acc
              | Some pre \<Rightarrow>
                  if pre \<noteq> [] \<and> last pre = CHR ''-''
                  then AList.update (butlast pre) (t_title item) acc else acc"
  have "k \<in> fst ` set ?acc
      \<or> (\<exists>key item. (key, item) \<in> set themes \<and> t_prefix item = Some (k @ ''-''))"
    using Cons.prems a by (auto simp: AList.dom_update split: option.splits)
  from Cons.IH [OF this] a show ?case by simp
qed

lemma legacySuffixes_fold_keys:
  "k \<in> fst ` set acc \<or> (\<exists>key item. (key, item) \<in> set themes \<and> t_suffix item = Some (''-'' @ k)) \<Longrightarrow>
   k \<in> fst ` set
     (fold (\<lambda>(key, item) tbl.
              case t_suffix item of
                None \<Rightarrow> tbl
              | Some suf \<Rightarrow>
                  if suf \<noteq> [] \<and> hd suf = CHR ''-''
                  then AList.update (tl suf) (t_title item) tbl else tbl)
        themes acc)"
proof (induction themes arbitrary: acc)
  case Nil
  then show ?case by simp
next
  case (Cons a themes)
  obtain key item where a: "a = (key, item)" by (cases a)
  let ?acc = "case t_suffix item of
                None \<Rightarrow> acc
              | Some suf \<Rightarrow>
                  if suf \<noteq> [] \<and> hd suf = CHR ''-''
                  then AList.update (tl suf) (t_title item) acc else acc"
  have "k \<in> fst ` set ?acc
      \<or> (\<exists>key item. (key, item) \<in> set themes \<and> t_suffix item = Some (''-'' @ k))"
    using Cons.prems a by (auto simp: AList.dom_update split: option.splits)
  from Cons.IH [OF this] a show ?case by simp
qed

text \<open>
  Claim C6, as amended. During \<^verbatim>\<open>load\<close> the legacy themes block is imported first.
  When the document has an explicit prefixes (or suffixes) field, the table is then built
  anew from that field alone: its keys are exactly the keys of the field, and the table
  is the field itself. Every legacy-derived entry of that table is dropped, whether or
  not its key occurs in the explicit field. A legacy-derived entry (a theme whose prefix
  is a token followed by a hyphen, or whose suffix is a hyphen followed by a token) is in
  the resulting table only when the explicit field of that table is absent.
\<close>

theorem load_explicit_themes_replace_legacy:
  "(d_prefixes data = Some items \<longrightarrow>
      fst ` set (prefixes (load imp data)) = fst ` set items
      \<and> (distinct (map fst items) \<longrightarrow> prefixes (load imp data) = items))
   \<and> (d_suffixes data = Some items \<longrightarrow>
      fst ` set (suffixes (load imp data)) = fst ` set items
      \<and> (distinct (map fst items) \<longrightarrow> suffixes (load imp data) = items))
   \<and> (d_themes data = Some themes \<and> (key, item) \<in> set themes \<longrightarrow>
      (d_prefixes data = None \<and> t_prefix item = Some (k @ ''-'') \<longrightarrow>
         k \<in> fst ` set (prefixes (load imp data)))
      \<and> (d_suffixes data = None \<and> t_suffix item = Some (''-'' @ k) \<longrightarrow>
         k \<in> fst ` set (suffixes (load imp data))))"
proof (intro conjI impI)
  assume "d_prefixes data = Some items"
  then show "fst ` set (prefixes (load imp data)) = fst ` set items"
    by (simp add: prefixes_load copyTheme_Some_keys)
next
  assume "d_prefixes data = Some items" "distinct (map fst items)"
  then show "prefixes (load imp data) = items"
    by (simp add: prefixes_load copyTheme_Some)
next
  assume "d_suffixes data = Some items"
  then show "fst ` set (suffixes (load imp data)) = fst ` set items"
    by (simp add: suffixes_load copyTheme_Some_keys)
next
  assume "d_suffixes data = Some items" "distinct (map fst items)"
  then show "suffixes (load imp data) = items"
    by (simp add: suffixes_load copyTheme_Some)
next
  assume "d_themes data = Some themes \<and> (key, item) \<in> set themes"
    and "d_prefixes data = None \<and> t_prefix item = Some (k @ ''-'')"
  then show "k \<in> fst ` set (prefixes (load imp data))"
    using legacyPrefixes_fold_keys [of k "[]" themes]
    by (auto simp: prefixes_load copyTheme_def legacyPrefixes_def)
next
  assume "d_themes data = Some themes \<and> (key, item) \<in> set themes"
    and "d_suffixes data = None \<and> t_suffix item = Some (''-'' @ k)"
  then show "k \<in> fst ` set (suffixes (load imp data))"
    using legacySuffixes_fold_keys [of k "[]" themes]
    by (auto simp: suffixes_load copyTheme_def legacySuffixes_def)
qed

theorem load_explicit_themes_replace_legacy_witness:
  "prefixes
     (load \<lparr>filterProps = (\<lambda>d r c. d), defaultCommonProps = Map.empty,
            defaultIconDimensions = Map.empty, convertIconSetInfo = (\<lambda>i. None)\<rparr>
        \<lparr>d_prefix = ''set'', d_props = Map.empty, d_icons = [], d_aliases = None,
         d_info = None, d_chars = None, d_categories = None,
         d_themes = Some [(''t'', \<lparr>t_title = ''A'', t_prefix = Some ''a-'', t_suffix = Some ''-z''\<rparr>)],
         d_prefixes = Some [(''b'', ''B'')], d_suffixes = None\<rparr>)
     = [(''b'', ''B'')]
   \<and> ''z'' \<in> fst ` set (suffixes
     (load \<lparr>filterProps = (\<lambda>d r c. d), defaultCommonProps = Map.empty,
            defaultIconDimensions = Map.empty, convertIconSetInfo = (\<lambda>i. None)\<rparr>
        \<lparr>d_prefix = ''set'', d_props = Map.empty, d_icons = [], d_aliases = None,
         d_info = None, d_chars = None, d_categories = None,
         d_themes = Some [(''t'', \<lparr>t_title = ''A'', t_prefix = Some ''a-'', t_suffix = Some ''-z''\<rparr>)],
         d_prefixes = Some [(''b'', ''B'')], d_suffixes = None\<rparr>))"
proof -
  let ?imp = "\<lparr>filterProps = (\<lambda>d r c. d), defaultCommonProps = Map.empty,
            defaultIconDimensions = Map.empty, convertIconSetInfo = (\<lambda>i. None)\<rparr>"
  let ?item = "\<lparr>t_title = ''A'', t_prefix = Some ''a-'', t_suffix = Some ''-z''\<rparr>"
  let ?data = "\<lparr>d_prefix = ''set'', d_props = Map.empty, d_icons = [], d_aliases = None,
         d_info = None, d_chars = None, d_categories = None,
         d_themes = Some [(''t'', ?item)],
         d_prefixes = Some [(''b'', ''B'')], d_suffixes = None\<rparr>"
  have h1: "d_prefixes ?data = Some [(''b'', ''B'')]" "distinct (map fst [(''b'', ''B'')])"
    by simp_all
  have h2: "d_themes ?data = Some [(''t'', ?item)] \<and> (''t'', ?item) \<in> set [(''t'', ?item)]"
    "d_suffixes ?data = None \<and> t_suffix ?item = Some (''-'' @ ''z'')"
    by simp_all
  from load_explicit_themes_replace_legacy
         [of ?data "[(''b'', ''B'')]" ?imp "[(''t'', ?item)]" "''t''" ?item "''z''"] h1 h2
  show ?thesis by blast
qed

text \<open>
  Claim C6 as stated fails: the document below has a legacy theme with the prefix
  \<open>a-\<close>, whose import gives the entry \<open>a\<close>, and an explicit prefixes field with the
  single key \<open>b\<close>. The key \<open>a\<close> does not occur in the explicit field, and it is not in
  the prefixes table after \<^verbatim>\<open>load\<close>.
\<close>

theorem load_legacy_theme_dropped_counterexample:
  "legacyPrefixes [(''t'', \<lparr>t_title = ''A'', t_prefix = Some ''a-'', t_suffix = None\<rparr>)]
     = [(''a'', ''A'')]
   \<and> map_of [(''b'', ''B'')] ''a'' = None
   \<and> map_of (prefixes
     (load \<lparr>filterProps = (\<lambda>d r c. d), defaultCommonProps = Map.empty,
            defaultIconDimensions = Map.empty, convertIconSetInfo = (\<lambda>i. None)\<rparr>
        \<lparr>d_prefix = ''set'', d_props = Map.empty, d_icons = [], d_aliases = None,
         d_info = None, d_chars = None, d_categories = None,
         d_themes = Some [(''t'', \<lparr>t_title = ''A'', t_prefix = Some ''a-'', t_suffix = None\<rparr>)],
         d_prefixes = Some [(''b'', ''B'')], d_suffixes = None\<rparr>)) ''a'' = None"
  by (simp add: prefixes_load copyTheme_def legacyPrefixes_def)

section \<open>Toggling a category\<close>

text \<open>
  Of claim C8 the following holds on the code: a call that returns false leaves the state
  that \<^verbatim>\<open>findCategory\<close> returned, so the entries are never changed by it, and nothing
  at all is changed when \<^verbatim>\<open>add\<close> is false; a call that returns true found an icon
  whose membership differed from \<^verbatim>\<open>add\<close> and moved the count of the category by one.
\<close>

lemma findCategory_no_add: "snd (findCategory s t False) = s"
  by (simp add: findCategory_def split: option.splits)

lemma findCategory_entries: "entries (snd (findCategory s t add)) = entries s"
  by (simp add: findCategory_def split: option.splits)

lemma toggleCategory_unfold:
  "findCategory s category add = (categoryItem, s1) \<Longrightarrow>
   toggleCategory s iconName category add =
     (case (map_of (entries s) iconName, categoryItem) of
        (Some (Icon b p cs cats), Some ref) \<Rightarrow>
          if (ref \<in> set cats) \<noteq> add then
            (True,
             s1\<lparr>heap := (heap s1)[ref := (heap s1 ! ref)
                           \<lparr>count := count (heap s1 ! ref) + (if add then 1 else - 1)\<rparr>],
                entries := AList.update iconName
                             (Icon b p cs (if add then setAdd ref cats else removeAll ref cats))
                             (entries s1)\<rparr>)
          else (False, s1)
      | _ \<Rightarrow> (False, s1))"
  by (simp add: toggleCategory_def Let_def)

lemma toggleCategory_failure:
  "findCategory s category add = (categoryItem, s1) \<Longrightarrow>
   \<not> fst (toggleCategory s iconName category add) \<Longrightarrow>
   snd (toggleCategory s iconName category add) = s1"
proof -
  assume f: "findCategory s category add = (categoryItem, s1)"
    and n: "\<not> fst (toggleCategory s iconName category add)"
  show ?thesis
  proof (cases "map_of (entries s) iconName")
    case None
    with f show ?thesis by (simp add: toggleCategory_unfold)
  next
    case (Some item)
    show ?thesis
    proof (cases categoryItem)
      case None
      with f Some show ?thesis
        by (simp add: toggleCategory_unfold split: IconSetIconEntry.splits)
    next
      case ref: (Some ref)
      show ?thesis
      proof (cases item)
        case (Icon b p cs cats)
        with f n Some ref show ?thesis
          by (cases "(ref \<in> set cats) \<noteq> add") (simp_all add: toggleCategory_unfold)
      next
        case (Alias par cs)
        with f Some ref show ?thesis by (simp add: toggleCategory_unfold)
      next
        case (Variation par p cs)
        with f Some ref show ?thesis by (simp add: toggleCategory_unfold)
      qed
    qed
  qed
qed

lemma toggleCategory_failure_no_add:
  "\<not> fst (toggleCategory s iconName category False) \<Longrightarrow>
   snd (toggleCategory s iconName category False) = s"
  using toggleCategory_failure [of s category False "fst (findCategory s category False)" s iconName]
    findCategory_no_add [of s category]
  by (cases "findCategory s category False") simp

lemma toggleCategory_failure_entries:
  "\<not> fst (toggleCategory s iconName category add) \<Longrightarrow>
   entries (snd (toggleCategory s iconName category add)) = entries s"
  using toggleCategory_failure [of s category add "fst (findCategory s category add)"
      "snd (findCategory s category add)" iconName]
    findCategory_entries [of s category add]
  by simp

lemma toggleCategory_success:
  assumes f: "findCategory s category add = (categoryItem, s1)"
    and ok: "fst (toggleCategory s iconName category add)"
  shows "\<exists>b p cs cats ref.
     map_of (entries s) iconName = Some (Icon b p cs cats) \<and> categoryItem = Some ref
     \<and> (ref \<in> set cats) \<noteq> add
     \<and> heap (snd (toggleCategory s iconName category add))
         = (heap s1)[ref := (heap s1 ! ref)
               \<lparr>count := count (heap s1 ! ref) + (if add then 1 else - 1)\<rparr>]"
proof (cases "map_of (entries s) iconName")
  case None
  with f ok show ?thesis by (simp add: toggleCategory_unfold)
next
  case (Some item)
  show ?thesis
  proof (cases categoryItem)
    case None
    with f ok Some show ?thesis
      by (simp add: toggleCategory_unfold split: IconSetIconEntry.splits)
  next
    case ref: (Some ref)
    show ?thesis
    proof (cases item)
      case (Icon b p cs cats)
      with f ok Some ref show ?thesis
        by (cases "(ref \<in> set cats) \<noteq> add") (simp_all add: toggleCategory_unfold)
    next
      case (Alias par cs)
      with f ok Some ref show ?thesis by (simp add: toggleCategory_unfold)
    next
      case (Variation par p cs)
      with f ok Some ref show ?thesis by (simp add: toggleCategory_unfold)
    qed
  qed
qed

text \<open>
  Claim C8 fails on the code when \<^verbatim>\<open>add\<close> is true, no category has the title, and the
  entry is missing or is not an icon: \<^verbatim>\<open>findCategory(category, add)\<close> runs before the
  entry is looked at, so the call returns false and yet leaves a new category of count 0
  in the category set. Below, first for a name that is not in the store, then for the
  name of an alias.
\<close>

theorem toggleCategory_failure_registers_category:
  "toggleCategory
     \<lparr>prefix = ''set'', entries = [], info = None, heap = [], categories = [],
      prefixes = [], suffixes = []\<rparr>
     ''missing'' ''New'' True
   = (False,
      \<lparr>prefix = ''set'', entries = [], info = None,
       heap = [\<lparr>title = ''New'', count = 0\<rparr>], categories = [0],
       prefixes = [], suffixes = []\<rparr>)
   \<and> toggleCategory
     \<lparr>prefix = ''set'',
      entries = [(''x'', Icon ''<g/>'' Map.empty [] []), (''a'', Alias ''x'' [])],
      info = None, heap = [], categories = [], prefixes = [], suffixes = []\<rparr>
     ''a'' ''New'' True
   = (False,
      \<lparr>prefix = ''set'',
       entries = [(''x'', Icon ''<g/>'' Map.empty [] []), (''a'', Alias ''x'' [])],
       info = None, heap = [\<lparr>title = ''New'', count = 0\<rparr>], categories = [0],
       prefixes = [], suffixes = []\<rparr>)"
  by (simp add: toggleCategory_def findCategory_def Let_def)

section \<open>Loading the categories\<close>

lemma filterLoop_member:
  "fst (filterLoop
          (\<lambda>key item icon u.
             (case item of
                Icon b p cs cats \<Rightarrow> \<not> truthyOpt (p PHidden) \<and> ref \<in> set cats
              | Alias par cs \<Rightarrow> False
              | Variation par p cs \<Rightarrow> False, u))
          es keys ())
     = filter (\<lambda>k. visibleIcon es k \<and> hasCategory es ref k) keys"
proof (induction keys)
  case Nil
  show ?case by simp
next
  case (Cons key keys)
  show ?case
  proof (cases "map_of es key")
    case None
    with Cons show ?thesis by (simp add: visibleIcon_def)
  next
    case (Some item)
    show ?thesis
    proof (cases item)
      case (Icon b p cs cats)
      with Some Cons show ?thesis
        by (auto simp: visibleIcon_def hasCategory_def split: prod.splits)
    next
      case (Alias par cs)
      with Some Cons show ?thesis
        by (auto simp: visibleIcon_def split: prod.splits option.splits)
    next
      case (Variation par p cs)
      with Some Cons show ?thesis
        by (auto simp: visibleIcon_def split: prod.splits option.splits)
    qed
  qed
qed

lemma filter_entries_member:
  "fst (filter_entries
          (\<lambda>key item icon u.
             (case item of
                Icon b p cs cats \<Rightarrow> \<not> truthyOpt (p PHidden) \<and> ref \<in> set cats
              | Alias par cs \<Rightarrow> False
              | Variation par p cs \<Rightarrow> False, u))
          es ())
     = categoryIcons es ref"
  unfolding filter_entries_def categoryIcons_def by (rule filterLoop_member)

lemma listCategoryItem_state:
  "snd (listCategoryItem s ref) =
     s\<lparr>heap := (heap s)[ref := (heap s ! ref)
                  \<lparr>count := int (length (categoryIcons (entries s) ref))\<rparr>],
       categories :=
         (if categoryIcons (entries s) ref = []
          then removeAll ref (categories s) else categories s)\<rparr>"
  by (simp add: listCategoryItem_def Let_def filter_entries_member)

lemma setAdd_idem: "setAdd x (setAdd x xs) = setAdd x xs"
  by (simp add: setAdd_def)

lemma setAdd_fresh: "x \<notin> set xs \<Longrightarrow> setAdd x xs = xs @ [x]"
  by (simp add: setAdd_def)

lemma tagEntry_False: "tagEntry ref False e = e"
  by (cases e) (simp_all add: tagEntry_def)

lemma map_tagEntry_False: "map_option (tagEntry ref False) x = x"
  by (cases x) (simp_all add: tagEntry_False)

lemma tagEntry_twice: "tagEntry ref a (tagEntry ref b e) = tagEntry ref (b \<or> a) e"
  by (cases e) (simp_all add: tagEntry_def setAdd_idem)

lemma update_present_keys:
  "map_of es k = Some v \<Longrightarrow> map fst (AList.update k v' es) = map fst es"
  by (simp add: AList.update_keys) (metis domI dom_map_of_conv_image_fst)

lemma addCategory_keys: "map fst (addCategory ref name es) = map fst es"
  by (simp add: addCategory_def update_present_keys split: option.splits IconSetIconEntry.splits)

lemma addCategory_map_of:
  "map_of (addCategory ref name es) n = map_option (tagEntry ref (n = name)) (map_of es n)"
proof (cases "map_of es name")
  case None
  then show ?thesis
    by (cases "n = name") (simp_all add: addCategory_def map_tagEntry_False)
next
  case (Some e)
  then show ?thesis
    by (cases e; cases "n = name")
       (simp_all add: addCategory_def AList.update_conv' tagEntry_def map_tagEntry_False)
qed

lemma fold_addCategory_keys: "map fst (fold (addCategory ref) names es) = map fst es"
  by (induction names arbitrary: es) (simp_all add: addCategory_keys)

lemma fold_addCategory_map_of:
  "map_of (fold (addCategory ref) names es) n
     = map_option (tagEntry ref (n \<in> set names)) (map_of es n)"
proof (induction names arbitrary: es)
  case Nil
  show ?case by (simp add: map_tagEntry_False)
next
  case (Cons a names)
  have "map_of (fold (addCategory ref) (a # names) es) n
      = map_option (tagEntry ref (n \<in> set names)) (map_of (addCategory ref a es) n)"
    using Cons [of "addCategory ref a es"] by simp
  also have "\<dots> = map_option (tagEntry ref (n \<in> set names))
      (map_option (tagEntry ref (n = a)) (map_of es n))"
    by (simp add: addCategory_map_of)
  also have "\<dots> = map_option (tagEntry ref (n \<in> set (a # names))) (map_of es n)"
    by (cases "map_of es n") (auto simp: tagEntry_twice)
  finally show ?case .
qed

lemma loadCategory_entries:
  "entries (loadCategory c s) = fold (addCategory (length (heap s))) (snd c) (entries s)"
  by (simp add: loadCategory_def Let_def listCategoryItem_state)

lemma loadCategory_heap:
  "heap (loadCategory c s)
     = heap s @ [\<lparr>title = fst c,
                  count = int (length (categoryIcons (entries (loadCategory c s))
                                         (length (heap s))))\<rparr>]"
  by (simp add: loadCategory_def Let_def listCategoryItem_state)

lemma loadCategory_categories:
  "categories (loadCategory c s)
     = (if categoryIcons (entries (loadCategory c s)) (length (heap s)) = []
        then removeAll (length (heap s)) (setAdd (length (heap s)) (categories s))
        else setAdd (length (heap s)) (categories s))"
  by (simp add: loadCategory_def Let_def listCategoryItem_state)

lemma catsOf_snoc:
  "catsOf (declared @ [c]) n
     = catsOf declared n @ (if n \<in> set (snd c) then [length declared] else [])"
proof -
  have "filter (\<lambda>i. n \<in> set (snd ((declared @ [c]) ! i))) [0..<length declared]
      = filter (\<lambda>i. n \<in> set (snd (declared ! i))) [0..<length declared]"
    by (rule filter_cong) (simp_all add: nth_append)
  then show ?thesis by (simp add: catsOf_def)
qed

lemma catsOf_bound: "i \<in> set (catsOf declared n) \<Longrightarrow> i < length declared"
  by (simp add: catsOf_def)

lemma tagEntry_loadedEntry:
  "tagEntry (length declared) (n \<in> set (snd c)) (loadedEntry declared n e)
     = loadedEntry (declared @ [c]) n e"
proof -
  have "length declared \<notin> set (catsOf declared n)"
    using catsOf_bound [of "length declared" declared n] by auto
  then show ?thesis
    by (cases e) (simp_all add: tagEntry_def loadedEntry_def catsOf_snoc setAdd_fresh)
qed

lemma visibleIcon_loaded:
  "map_of es n = map_option (loadedEntry declared n) (map_of es0 n) \<Longrightarrow>
   visibleIcon es n = visibleIcon es0 n"
  by (cases "map_of es0 n")
     (auto simp: visibleIcon_def loadedEntry_def split: IconSetIconEntry.splits)

lemma hasCategory_loaded:
  "map_of es n = map_option (loadedEntry declared n) (map_of es0 n) \<Longrightarrow> visibleIcon es0 n \<Longrightarrow>
   hasCategory es ref n = (ref \<in> set (catsOf declared n))"
  by (cases "map_of es0 n")
     (auto simp: visibleIcon_def hasCategory_def loadedEntry_def split: IconSetIconEntry.splits)

lemma categoryIcons_loaded:
  assumes keys: "map fst es = map fst es0"
    and m: "\<forall>n. map_of es n = map_option (loadedEntry (declared @ [c]) n) (map_of es0 n)"
  shows "categoryIcons es (length declared) = listedIcons es0 (snd c)"
proof -
  have "(visibleIcon es k \<and> hasCategory es (length declared) k)
      = (visibleIcon es0 k \<and> k \<in> set (snd c))" for k
  proof (cases "visibleIcon es0 k")
    case False
    with visibleIcon_loaded [of es k "declared @ [c]" es0] m show ?thesis by simp
  next
    case True
    have "length declared \<notin> set (catsOf declared k)"
      using catsOf_bound [of "length declared" declared k] by auto
    with True visibleIcon_loaded [of es k "declared @ [c]" es0]
      hasCategory_loaded [of es k "declared @ [c]" es0 "length declared"] m
    show ?thesis by (simp add: catsOf_snoc)
  qed
  then show ?thesis by (simp add: categoryIcons_def listedIcons_def keys)
qed

lemma categoriesLoaded_step:
  assumes J: "categoriesLoaded es0 declared s"
  shows "categoriesLoaded es0 (declared @ [c]) (loadCategory c s)"
proof -
  let ?m = "length declared"
  let ?s = "loadCategory c s"
  from J have len: "length (heap s) = ?m"
    and hp: "\<forall>i<?m. heap s ! i = \<lparr>title = fst (declared ! i),
                         count = int (length (listedIcons es0 (snd (declared ! i))))\<rparr>"
    and keys: "map fst (entries s) = map fst es0"
    and ents: "\<forall>n. map_of (entries s) n = map_option (loadedEntry declared n) (map_of es0 n)"
    and cats: "categories s
        = filter (\<lambda>i. listedIcons es0 (snd (declared ! i)) \<noteq> []) [0..<?m]"
    by (simp_all add: categoriesLoaded_def)
  have keys': "map fst (entries ?s) = map fst es0"
    by (simp add: loadCategory_entries fold_addCategory_keys keys)
  have ents': "\<forall>n. map_of (entries ?s) n
      = map_option (loadedEntry (declared @ [c]) n) (map_of es0 n)"
  proof
    fix n
    have "map_of (entries ?s) n
        = map_option (tagEntry ?m (n \<in> set (snd c)))
            (map_option (loadedEntry declared n) (map_of es0 n))"
      using ents by (simp add: loadCategory_entries fold_addCategory_map_of len)
    also have "\<dots> = map_option (loadedEntry (declared @ [c]) n) (map_of es0 n)"
      by (cases "map_of es0 n") (simp_all add: tagEntry_loadedEntry)
    finally show "map_of (entries ?s) n
        = map_option (loadedEntry (declared @ [c]) n) (map_of es0 n)" .
  qed
  have icons: "categoryIcons (entries ?s) ?m = listedIcons es0 (snd c)"
    using categoryIcons_loaded [OF keys' ents'] .
  have heap': "heap ?s = heap s @ [\<lparr>title = fst c,
      count = int (length (listedIcons es0 (snd c)))\<rparr>]"
    using loadCategory_heap [of c s] icons len by simp
  have fresh: "?m \<notin> set (categories s)" by (simp add: cats)
  have cats': "categories ?s
      = filter (\<lambda>i. listedIcons es0 (snd ((declared @ [c]) ! i)) \<noteq> []) [0..<Suc ?m]"
  proof -
    have old: "filter (\<lambda>i. listedIcons es0 (snd ((declared @ [c]) ! i)) \<noteq> []) [0..<?m]
        = categories s"
      unfolding cats by (rule filter_cong) (simp_all add: nth_append)
    have "categories ?s
        = (if listedIcons es0 (snd c) = [] then categories s else categories s @ [?m])"
      using loadCategory_categories [of c s] icons len fresh by (simp add: setAdd_fresh)
    with old show ?thesis by simp
  qed
  have hp': "\<forall>i<Suc ?m. heap ?s ! i = \<lparr>title = fst ((declared @ [c]) ! i),
      count = int (length (listedIcons es0 (snd ((declared @ [c]) ! i))))\<rparr>"
    using hp len by (auto simp: heap' nth_append less_Suc_eq)
  show ?thesis
    unfolding categoriesLoaded_def using heap' len hp' keys' ents' cats' by simp
qed

lemma categoriesLoaded_fold:
  "categoriesLoaded es0 declared s \<Longrightarrow>
   categoriesLoaded es0 (declared @ cs) (fold loadCategory cs s)"
proof (induction cs arbitrary: declared s)
  case Nil
  then show ?case by simp
next
  case (Cons c cs)
  from Cons.IH [OF categoriesLoaded_step [OF Cons.prems, of c]] show ?case by simp
qed

lemma freshIcons_Nil: "freshIcons []"
  by (simp add: freshIcons_def)

lemma freshIcons_update:
  "freshIcons es \<Longrightarrow> (\<forall>b p cs cats. e = Icon b p cs cats \<longrightarrow> cats = []) \<Longrightarrow>
   freshIcons (AList.update n e es)"
  unfolding freshIcons_def by (simp add: AList.update_conv')

lemma fold_invariant:
  "(\<And>x acc. P acc \<Longrightarrow> P (f x acc)) \<Longrightarrow> P acc \<Longrightarrow> P (fold f xs acc)"
  by (induction xs arbitrary: acc) simp_all

lemma freshIcons_loadIcons: "freshIcons (loadIcons imp data)"
  unfolding loadIcons_def Let_def
proof (rule fold_invariant [where P = freshIcons])
  show "freshIcons []" by (rule freshIcons_Nil)
next
  fix x :: "string \<times> string \<times> Props" and acc :: Entries
  assume "freshIcons acc"
  then show "freshIcons ((case x of (name, b, p) \<Rightarrow> \<lambda>es. AList.update name
            (Icon b (filterProps imp (filterProps imp (d_props data) (defaultIconDimensions imp) True ++ p)
                  (defaultCommonProps imp) True) [] []) es) acc)"
    by (cases x) (simp add: freshIcons_update)
qed

lemma freshIcons_loadAliases: "freshIcons es \<Longrightarrow> freshIcons (loadAliases imp data es)"
proof (cases "d_aliases data")
  case None
  assume "freshIcons es"
  with None show ?thesis by (simp add: loadAliases_def)
next
  case (Some aliases)
  assume f: "freshIcons es"
  have step: "freshIcons
      ((case x of (name, par, p) \<Rightarrow> \<lambda>es.
          if map_of es name \<noteq> None then es
          else
            (let props = filterProps imp p (defaultCommonProps imp) False
             in if length (keysOf props) \<noteq> 0
                then AList.update name (Variation par props []) es
                else AList.update name (Alias par []) es)) acc)"
    if "freshIcons acc" for x :: "string \<times> string \<times> Props" and acc
    using that by (cases x) (simp add: Let_def freshIcons_update)
  show ?thesis
    unfolding loadAliases_def Some option.case
    by (rule fold_invariant [where P = freshIcons]) (rule step, assumption, rule f)
qed

lemma freshIcons_addChar:
  "freshIcons es \<Longrightarrow> map_of es n = Some e \<Longrightarrow> freshIcons (AList.update n (addChar c e) es)"
  unfolding freshIcons_def by (cases e) (simp_all add: AList.update_conv')

lemma freshIcons_loadChars: "freshIcons es \<Longrightarrow> freshIcons (loadChars data es)"
proof (cases "d_chars data")
  case None
  assume "freshIcons es"
  with None show ?thesis by (simp add: loadChars_def)
next
  case (Some chars)
  assume f: "freshIcons es"
  have step: "freshIcons
      ((case x of (c, name) \<Rightarrow> \<lambda>es.
          case map_of es name of
            None \<Rightarrow> es
          | Some icon \<Rightarrow> AList.update name (addChar c icon) es) acc)"
    if "freshIcons acc" for x :: "string \<times> string" and acc
    using that by (cases x) (simp add: freshIcons_addChar split: option.splits)
  show ?thesis
    unfolding loadChars_def Some option.case
    by (rule fold_invariant [where P = freshIcons]) (rule step, assumption, rule f)
qed

lemma categoriesLoaded_start:
  "freshIcons es0 \<Longrightarrow> entries s = es0 \<Longrightarrow> heap s = [] \<Longrightarrow> categories s = [] \<Longrightarrow>
   categoriesLoaded es0 [] s"
proof -
  assume f: "freshIcons es0" and e: "entries s = es0" and h: "heap s = []"
    and c: "categories s = []"
  have "map_of es0 n = map_option (loadedEntry [] n) (map_of es0 n)" for n
  proof (cases "map_of es0 n")
    case None
    then show ?thesis by simp
  next
    case (Some x)
    with f show ?thesis
      by (cases x) (auto simp: loadedEntry_def catsOf_def freshIcons_def)
  qed
  with e h c show ?thesis by (simp add: categoriesLoaded_def)
qed

lemma categoriesLoaded_themes:
  "categoriesLoaded es0 declared (s\<lparr>prefixes := a, suffixes := b\<rparr>)
     = categoriesLoaded es0 declared s"
  by (simp add: categoriesLoaded_def)

lemma load_unfold:
  "load imp data =
     (loadCategories data
        \<lparr>prefix = d_prefix data,
         entries = loadChars data (loadAliases imp data (loadIcons imp data)),
         info = (case d_info data of None \<Rightarrow> None | Some i \<Rightarrow> convertIconSetInfo imp i),
         heap = [], categories = [], prefixes = [], suffixes = []\<rparr>)
     \<lparr>prefixes := copyTheme (d_prefixes data)
                    (legacyPrefixes (case d_themes data of None \<Rightarrow> [] | Some ts \<Rightarrow> ts)),
      suffixes := copyTheme (d_suffixes data)
                    (legacySuffixes (case d_themes data of None \<Rightarrow> [] | Some ts \<Rightarrow> ts))\<rparr>"
  unfolding load_def Let_def ..

lemma load_categoriesLoaded:
  assumes cs: "d_categories data = Some cs"
  shows "categoriesLoaded (loadChars data (loadAliases imp data (loadIcons imp data))) cs
     (load imp data)"
proof -
  define es0 where "es0 = loadChars data (loadAliases imp data (loadIcons imp data))"
  define s0 where "s0 = \<lparr>prefix = d_prefix data, entries = es0,
       info = (case d_info data of None \<Rightarrow> None | Some i \<Rightarrow> convertIconSetInfo imp i),
       heap = [], categories = [], prefixes = [], suffixes = []\<rparr>"
  have "freshIcons es0"
    unfolding es0_def
    by (intro freshIcons_loadChars freshIcons_loadAliases freshIcons_loadIcons)
  then have "categoriesLoaded es0 [] s0"
    by (rule categoriesLoaded_start) (simp_all add: s0_def)
  from categoriesLoaded_fold [OF this, of cs]
  have "categoriesLoaded es0 cs (loadCategories data s0)"
    by (simp add: loadCategories_def cs)
  then show ?thesis
    unfolding load_unfold categoriesLoaded_themes s0_def es0_def .
qed

lemma listedIcons_empty_iff:
  "listedIcons es names \<noteq> [] \<longleftrightarrow> (\<exists>n\<in>set names. visibleIcon es n)"
proof -
  have "n \<in> fst ` set es" if "visibleIcon es n" for n
  proof -
    from that obtain e where "map_of es n = Some e"
      by (cases "map_of es n") (simp_all add: visibleIcon_def)
    then have "(n, e) \<in> set es" by (rule map_of_SomeD)
    then show ?thesis by (rule rev_image_eqI) simp
  qed
  then show ?thesis by (auto simp: listedIcons_def filter_empty_conv)
qed

lemma find_unique:
  assumes "i \<in> set xs" and "Q i" and "\<And>j. j \<in> set xs \<Longrightarrow> Q j \<Longrightarrow> j = i"
  shows "find Q xs = Some i"
  using assms
proof (induction xs)
  case Nil
  then show ?case by simp
next
  case (Cons x xs)
  show ?case
  proof (cases "Q x")
    case True
    with Cons.prems(3) [of x] show ?thesis by simp
  next
    case False
    with Cons.prems(1,2) have "i \<in> set xs" by auto
    from Cons.IH [OF this Cons.prems(2)] Cons.prems(3) False show ?thesis by simp
  qed
qed

text \<open>
  Claim C7, as amended. For every input document, \<^verbatim>\<open>load\<close> creates one category
  record for each declared category, in the order of declaration, with the declared
  title. An icon entry holds the category exactly when its name is listed for it; aliases,
  variations and missing names are skipped. The count of the record is set to the number
  of entries that are non-hidden icons and are listed. The category is in the Category
  Index after \<^verbatim>\<open>load\<close> exactly when at least one listed name is a non-hidden icon: a
  declared category with no such member has been removed again by \<^verbatim>\<open>listCategory\<close>.
  With distinct titles, looking the title up finds the category in the first case and
  nothing in the second.
\<close>

theorem load_registers_listed_categories:
  assumes cs: "d_categories data = Some cs" and i: "i < length cs"
  shows "length (heap (load imp data)) = length cs
    \<and> title (heap (load imp data) ! i) = fst (cs ! i)
    \<and> count (heap (load imp data) ! i)
        = int (length (listedIcons (entries (load imp data)) (snd (cs ! i))))
    \<and> (\<forall>n b p chs cats. map_of (entries (load imp data)) n = Some (Icon b p chs cats) \<longrightarrow>
          (i \<in> set cats \<longleftrightarrow> n \<in> set (snd (cs ! i))))
    \<and> (i \<in> set (categories (load imp data))
        \<longleftrightarrow> (\<exists>n\<in>set (snd (cs ! i)). visibleIcon (entries (load imp data)) n))
    \<and> (distinct (map fst cs) \<longrightarrow>
          fst (findCategory (load imp data) (fst (cs ! i)) False)
            = (if \<exists>n\<in>set (snd (cs ! i)). visibleIcon (entries (load imp data)) n
               then Some i else None))"
proof -
  let ?s = "load imp data"
  let ?es0 = "loadChars data (loadAliases imp data (loadIcons imp data))"
  from load_categoriesLoaded [OF cs, of imp]
  have len: "length (heap ?s) = length cs"
    and hp: "\<forall>j<length cs. heap ?s ! j = \<lparr>title = fst (cs ! j),
                         count = int (length (listedIcons ?es0 (snd (cs ! j))))\<rparr>"
    and keys: "map fst (entries ?s) = map fst ?es0"
    and ents: "\<forall>n. map_of (entries ?s) n = map_option (loadedEntry cs n) (map_of ?es0 n)"
    and cats: "categories ?s
        = filter (\<lambda>j. listedIcons ?es0 (snd (cs ! j)) \<noteq> []) [0..<length cs]"
    by (simp_all add: categoriesLoaded_def)
  have vis: "visibleIcon (entries ?s) n = visibleIcon ?es0 n" for n
    using visibleIcon_loaded [of "entries ?s" n cs ?es0] ents by simp
  have listed: "listedIcons (entries ?s) names = listedIcons ?es0 names" for names
    by (simp add: listedIcons_def keys vis)
  have c1: "title (heap ?s ! i) = fst (cs ! i)"
    and c2: "count (heap ?s ! i) = int (length (listedIcons (entries ?s) (snd (cs ! i))))"
    using hp i by (simp_all add: listed)
  have c3: "\<forall>n b p chs cats. map_of (entries ?s) n = Some (Icon b p chs cats) \<longrightarrow>
          (i \<in> set cats \<longleftrightarrow> n \<in> set (snd (cs ! i)))"
  proof (intro allI impI)
    fix n b p chs cats
    assume "map_of (entries ?s) n = Some (Icon b p chs cats)"
    with ents have "cats = catsOf cs n"
      by (cases "map_of ?es0 n")
         (auto simp: loadedEntry_def split: IconSetIconEntry.splits)
    with i show "i \<in> set cats \<longleftrightarrow> n \<in> set (snd (cs ! i))" by (simp add: catsOf_def)
  qed
  have c4: "i \<in> set (categories ?s)
      \<longleftrightarrow> (\<exists>n\<in>set (snd (cs ! i)). visibleIcon (entries ?s) n)"
    using i by (simp add: cats listed [symmetric] listedIcons_empty_iff)
  have c5: "fst (findCategory ?s (fst (cs ! i)) False)
            = (if \<exists>n\<in>set (snd (cs ! i)). visibleIcon (entries ?s) n then Some i else None)"
    if d: "distinct (map fst cs)"
  proof -
    have bound: "\<forall>j\<in>set (categories ?s). j < length cs" by (simp add: cats)
    have uniq: "j = i"
      if "j \<in> set (categories ?s)" "title (heap ?s ! j) = fst (cs ! i)" for j
    proof -
      from that(1) bound have j: "j < length cs" by simp
      with hp that(2) have "fst (cs ! j) = fst (cs ! i)" by simp
      moreover have "(map fst cs ! j = map fst cs ! i) = (j = i)"
        using d i j by (intro nth_eq_iff_index_eq) simp_all
      ultimately show ?thesis using i j by simp
    qed
    show ?thesis
    proof (cases "i \<in> set (categories ?s)")
      case True
      have "find (\<lambda>ref. title (heap ?s ! ref) = fst (cs ! i)) (categories ?s) = Some i"
        using True c1 uniq by (intro find_unique) simp_all
      with True c4 show ?thesis by (simp add: findCategory_def)
    next
      case False
      have "find (\<lambda>ref. title (heap ?s ! ref) = fst (cs ! i)) (categories ?s) = None"
        using False uniq by (auto simp: find_None_iff)
      with False c4 show ?thesis by (simp add: findCategory_def)
    qed
  qed
  from len c1 c2 c3 c4 c5 show ?thesis by blast
qed

theorem load_registers_listed_categories_witness:
  "d_categories
     \<lparr>d_prefix = ''set'', d_props = Map.empty,
      d_icons = [(''home'', ''<g/>'', Map.empty)], d_aliases = None,
      d_info = None, d_chars = None,
      d_categories = Some [(''Nav'', [''home''])],
      d_themes = None, d_prefixes = None, d_suffixes = None\<rparr>
     = Some [(''Nav'', [''home''])]
   \<and> (0 :: nat) < length [(''Nav'', [''home''])]
   \<and> length (heap
       (load \<lparr>filterProps = (\<lambda>d r c. d), defaultCommonProps = Map.empty,
              defaultIconDimensions = Map.empty, convertIconSetInfo = (\<lambda>i. None)\<rparr>
          \<lparr>d_prefix = ''set'', d_props = Map.empty,
           d_icons = [(''home'', ''<g/>'', Map.empty)], d_aliases = None,
           d_info = None, d_chars = None,
           d_categories = Some [(''Nav'', [''home''])],
           d_themes = None, d_prefixes = None, d_suffixes = None\<rparr>)) = 1
   \<and> title (heap
       (load \<lparr>filterProps = (\<lambda>d r c. d), defaultCommonProps = Map.empty,
              defaultIconDimensions = Map.empty, convertIconSetInfo = (\<lambda>i. None)\<rparr>
          \<lparr>d_prefix = ''set'', d_props = Map.empty,
           d_icons = [(''home'', ''<g/>'', Map.empty)], d_aliases = None,
           d_info = None, d_chars = None,
           d_categories = Some [(''Nav'', [''home''])],
           d_themes = None, d_prefixes = None, d_suffixes = None\<rparr>) ! 0) = ''Nav''"
proof -
  let ?imp = "\<lparr>filterProps = (\<lambda>d r c. d), defaultCommonProps = Map.empty,
              defaultIconDimensions = Map.empty, convertIconSetInfo = (\<lambda>i. None)\<rparr>"
  let ?data = "\<lparr>d_prefix = ''set'', d_props = Map.empty,
      d_icons = [(''home'', ''<g/>'', Map.empty)], d_aliases = None,
      d_info = None, d_chars = None,
      d_categories = Some [(''Nav'', [''home''])],
      d_themes = None, d_prefixes = None, d_suffixes = None\<rparr>"
  have h1: "d_categories ?data = Some [(''Nav'', [''home''])]" by simp
  have h2: "(0 :: nat) < length [(''Nav'', [''home''])]" by simp
  from load_registers_listed_categories [OF h1 h2, of ?imp]
  have "length (heap (load ?imp ?data)) = 1" "title (heap (load ?imp ?data) ! 0) = ''Nav''"
    by simp_all
  with h1 h2 show ?thesis by blast
qed

text \<open>
  Claim C7 as stated fails: the document below declares the category \<open>Empty\<close>, whose
  members are an alias and a name that is not in the document, so none of them is an icon
  entry. After \<^verbatim>\<open>load\<close> the category set is empty; the record that was created for
  the category is not in it.
\<close>

theorem load_empty_category_counterexample:
  "categories
     (load \<lparr>filterProps = (\<lambda>d r c. d), defaultCommonProps = Map.empty,
            defaultIconDimensions = Map.empty, convertIconSetInfo = (\<lambda>i. None)\<rparr>
        \<lparr>d_prefix = ''set'', d_props = Map.empty,
         d_icons = [(''home'', ''<g/>'', Map.empty)],
         d_aliases = Some [(''house'', ''home'', Map.empty)],
         d_info = None, d_chars = None,
         d_categories = Some [(''Empty'', [''house'', ''nothing''])],
         d_themes = None, d_prefixes = None, d_suffixes = None\<rparr>) = []
   \<and> heap
     (load \<lparr>filterProps = (\<lambda>d r c. d), defaultCommonProps = Map.empty,
            defaultIconDimensions = Map.empty, convertIconSetInfo = (\<lambda>i. None)\<rparr>
        \<lparr>d_prefix = ''set'', d_props = Map.empty,
         d_icons = [(''home'', ''<g/>'', Map.empty)],
         d_aliases = Some [(''house'', ''home'', Map.empty)],
         d_info = None, d_chars = None,
         d_categories = Some [(''Empty'', [''house'', ''nothing''])],
         d_themes = None, d_prefixes = None, d_suffixes = None\<rparr>)
     = [\<lparr>title = ''Empty'', count = 0\<rparr>]"
  by (simp add: load_def Let_def loadIcons_def loadAliases_def loadChars_def loadCategories_def
      loadCategory_def addCategory_def listCategoryItem_def filter_entries_def resolve_def
      getIcon.simps maxIteration_def keysOf_def allKeys_def setAdd_def
      copyTheme_def legacyPrefixes_def legacySuffixes_def)

section \<open>Themes: the first matching key\<close>

lemma take_eq_iff_prefix: "take (length m) name = m \<longleftrightarrow> (\<exists>rest. name = m @ rest)"
proof
  assume "take (length m) name = m"
  then have "name = m @ drop (length m) name" by (metis append_take_drop_id)
  then show "\<exists>rest. name = m @ rest" ..
next
  assume "\<exists>rest. name = m @ rest"
  then show "take (length m) name = m" by auto
qed

lemma drop_eq_iff_suffix:
  "drop (length name - length m) name = m \<longleftrightarrow> (\<exists>rest. name = rest @ m)"
proof
  assume "drop (length name - length m) name = m"
  then have "name = take (length name - length m) name @ m" by (metis append_take_drop_id)
  then show "\<exists>rest. name = rest @ m" ..
next
  assume "\<exists>rest. name = rest @ m"
  then show "drop (length name - length m) name = m" by auto
qed

lemma themeLoop_find:
  "themeLoop isPrefix keys name = find (\<lambda>k. matchesKey isPrefix k name) keys"
proof (induction keys)
  case Nil
  show ?case by simp
next
  case (Cons search keys)
  show ?case
  proof (cases "search = []")
    case True
    then show ?thesis by (simp add: matchesKey_def)
  next
    case False
    have p: "(take (length (search @ ''-'')) name = search @ ''-'')
        = (\<exists>rest. name = search @ ''-'' @ rest)"
      using take_eq_iff_prefix [of "search @ ''-''" name] by simp
    have s: "(drop (length name - length (''-'' @ search)) name = ''-'' @ search)
        = (\<exists>rest. name = rest @ ''-'' @ search)"
      using drop_eq_iff_suffix [of name "''-'' @ search"] by simp
    show ?thesis
    proof (cases isPrefix)
      case True
      with False Cons p show ?thesis by (simp add: matchesKey_def Let_def del: take_append)
    next
      case isSuffix: False
      with False Cons s show ?thesis by (simp add: matchesKey_def Let_def del: drop_append)
    qed
  qed
qed

lemma pushValid_map_of:
  "map_of (pushValid search name v) k
     = (if k = search then map_option (\<lambda>ns. ns @ [name]) (map_of v k) else map_of v k)"
  by (cases "map_of v search") (auto simp: pushValid_def AList.update_conv')

lemma pushValid_keys: "map fst (pushValid search name v) = map fst v"
proof (cases "map_of v search")
  case None
  then show ?thesis by (simp add: pushValid_def)
next
  case (Some ns)
  then have "search \<in> fst ` set v" by (metis domI dom_map_of_conv_image_fst)
  with Some show ?thesis by (simp add: pushValid_def AList.update_keys)
qed

lemma filterLoop_theme_step:
  "filterLoop (themeCallback isPrefix keys) es (key # rest) v =
     (if visibleEntry es key then
        (case themeLoop isPrefix keys key of
           Some search \<Rightarrow> filterLoop (themeCallback isPrefix keys) es rest (pushValid search key v)
         | None \<Rightarrow>
             (case filterLoop (themeCallback isPrefix keys) es rest v of
                (names, v') \<Rightarrow> (key # names, v')))
      else filterLoop (themeCallback isPrefix keys) es rest v)"
proof (cases "map_of es key")
  case None
  then show ?thesis by (simp add: visibleEntry_def)
next
  case (Some item)
  show ?thesis
  proof (cases item)
    case (Icon b p cs cats)
    with Some show ?thesis
      by (simp add: visibleEntry_def themeCallback_def split: option.splits prod.splits)
  next
    case (Alias par cs)
    with Some show ?thesis
      by (simp add: visibleEntry_def themeCallback_def split: option.splits prod.splits)
  next
    case (Variation par p cs)
    with Some show ?thesis
      by (cases "resolve es key")
         (simp_all add: visibleEntry_def themeCallback_def split: option.splits prod.splits)
  qed
qed

lemma filterLoop_theme:
  "fst (filterLoop (themeCallback isPrefix keys) es names v)
     = filter (\<lambda>n. visibleEntry es n \<and> themeLoop isPrefix keys n = None) names
   \<and> map_of (snd (filterLoop (themeCallback isPrefix keys) es names v)) k
     = map_option
         (\<lambda>ns. ns @ filter (\<lambda>n. visibleEntry es n \<and> themeLoop isPrefix keys n = Some k) names)
         (map_of v k)
   \<and> map fst (snd (filterLoop (themeCallback isPrefix keys) es names v)) = map fst v"
proof (induction names arbitrary: v)
  case Nil
  show ?case by (simp add: option.map_ident)
next
  case (Cons key rest)
  show ?case
  proof (cases "visibleEntry es key")
    case False
    with Cons [of v] show ?thesis by (simp only: filterLoop_theme_step) simp
  next
    case True
    show ?thesis
    proof (cases "themeLoop isPrefix keys key")
      case None
      with True Cons [of v] show ?thesis
        by (simp only: filterLoop_theme_step) (simp add: case_prod_beta)
    next
      case (Some search)
      have "map_option
             (\<lambda>ns. ns @ filter (\<lambda>n. visibleEntry es n \<and> themeLoop isPrefix keys n = Some k) rest)
             (map_of (pushValid search key v) k)
          = map_option
             (\<lambda>ns. ns @ filter (\<lambda>n. visibleEntry es n \<and> themeLoop isPrefix keys n = Some k)
                        (key # rest))
             (map_of v k)"
        using True Some by (cases "map_of v k") (auto simp: pushValid_map_of)
      with True Some Cons [of "pushValid search key v"] show ?thesis
        by (simp only: filterLoop_theme_step) (simp add: pushValid_keys)
    qed
  qed
qed

lemma valid_init:
  "map_of (fold (\<lambda>key v. AList.update key [] v) keys v0) k
     = (if k \<in> set keys then Some [] else map_of v0 k)"
  by (induction keys arbitrary: v0) (simp_all add: AList.update_conv')

lemma set_insertBy: "set (insertBy cmp x ys) = insert x (set ys)"
  by (induction ys) auto

lemma set_arraySort: "set (arraySort cmp xs) = set xs"
  by (induction xs) (simp_all add: arraySort_def set_insertBy)

lemma length_arraySort_aux: "length (insertBy cmp x ys) = Suc (length ys)"
  by (induction ys) auto

lemma distinct_insertBy: "distinct ys \<Longrightarrow> x \<notin> set ys \<Longrightarrow> distinct (insertBy cmp x ys)"
  by (induction ys) (auto simp: set_insertBy)

lemma distinct_arraySort: "distinct xs \<Longrightarrow> distinct (arraySort cmp xs)"
proof (induction xs)
  case Nil
  show ?case by (simp add: arraySort_def)
next
  case (Cons x xs)
  then have "distinct (foldr (insertBy cmp) xs [])" "x \<notin> set (foldr (insertBy cmp) xs [])"
    using set_arraySort [of cmp xs] by (simp_all add: arraySort_def)
  then show ?case by (simp add: arraySort_def distinct_insertBy)
qed

lemma sorted_insertBy:
  assumes total: "\<And>a b. lc a b \<le> 0 \<or> lc b a \<le> 0"
    and trans: "\<And>a b c. lc a b \<le> 0 \<Longrightarrow> lc b c \<le> 0 \<Longrightarrow> lc a c \<le> 0"
  shows "sorted_wrt (\<lambda>a b. length b < length a \<or> (length a = length b \<and> lc a b \<le> 0)) ys \<Longrightarrow>
    sorted_wrt (\<lambda>a b. length b < length a \<or> (length a = length b \<and> lc a b \<le> 0))
      (insertBy (compareKeys lc) x ys)"
proof (induction ys)
  case Nil
  show ?case by simp
next
  case (Cons y ys)
  let ?R = "\<lambda>a b. length b < length a \<or> (length a = length b \<and> lc a b \<le> 0)"
  from Cons.prems have tail: "sorted_wrt ?R ys" and head: "\<forall>z\<in>set ys. ?R y z" by simp_all
  show ?case
  proof (cases "compareKeys lc x y \<le> 0")
    case True
    then have xy: "?R x y" by (auto simp: compareKeys_def split: if_splits)
    have "?R x z" if "z \<in> set ys" for z
    proof -
      from head that have "?R y z" by simp
      with xy trans [of x y z] show ?thesis by auto
    qed
    with True xy Cons.prems show ?thesis by simp
  next
    case False
    then have yx: "?R y x"
      using total [of x y] by (auto simp: compareKeys_def split: if_splits)
    with False head Cons.IH [OF tail] show ?thesis by (simp add: set_insertBy)
  qed
qed

lemma sorted_sortThemeKeys:
  assumes total: "\<And>a b. lc a b \<le> 0 \<or> lc b a \<le> 0"
    and trans: "\<And>a b c. lc a b \<le> 0 \<Longrightarrow> lc b c \<le> 0 \<Longrightarrow> lc a c \<le> 0"
  shows "sorted_wrt (\<lambda>a b. length b < length a \<or> (length a = length b \<and> lc a b \<le> 0))
      (sortThemeKeys lc ks)"
  unfolding sortThemeKeys_def arraySort_def
  by (induction ks) (simp_all add: sorted_insertBy [OF total trans])

lemma find_longest:
  "sorted_wrt (\<lambda>a b. length b \<le> length a) keys \<Longrightarrow> find P keys = Some k \<Longrightarrow>
   k \<in> set keys \<and> P k \<and> (\<forall>k'\<in>set keys. P k' \<longrightarrow> length k' \<le> length k)"
proof (induction keys)
  case Nil
  then show ?case by simp
next
  case (Cons x xs)
  show ?case
  proof (cases "P x")
    case True
    with Cons.prems show ?thesis by auto
  next
    case False
    with Cons.prems have "sorted_wrt (\<lambda>a b. length b \<le> length a) xs" "find P xs = Some k"
      by simp_all
    from Cons.IH [OF this] False show ?thesis by auto
  qed
qed

lemma sorted_length_weaken:
  "sorted_wrt (\<lambda>a b. length b < length a \<or> (length a = length b \<and> lc a b \<le> (0::int))) keys \<Longrightarrow>
   sorted_wrt (\<lambda>a b. length b \<le> length a) keys"
  by (erule sorted_wrt_mono_rel [rotated]) auto

lemma empty_key_last:
  assumes s: "sorted_wrt (\<lambda>a b. length b \<le> length a) keys" and d: "distinct keys"
    and e: "[] \<in> set keys"
  shows "last keys = []"
proof -
  from e obtain xs ys where k: "keys = xs @ [] # ys" by (meson split_list)
  have "ys = []"
  proof (rule ccontr)
    assume "ys \<noteq> []"
    then obtain y where y: "y \<in> set ys" by (cases ys) auto
    with s k have "length y \<le> length ([] :: string)" by (auto simp: sorted_wrt_append)
    then have "y = []" by simp
    with y d k show False by auto
  qed
  with k show ?thesis by simp
qed

lemma checkTheme_unfold:
  "checkTheme lc s isPrefix =
     (let keys = sortThemeKeys lc (map fst (if isPrefix then prefixes s else suffixes s));
          r = filterLoop (themeCallback isPrefix keys) (entries s) (map fst (entries s))
                (fold (\<lambda>key v. AList.update key [] v) keys [])
      in \<lparr>valid = snd r, invalid = fst r\<rparr>)"
  by (simp add: checkTheme_def Let_def filter_entries_def)

text \<open>
  Claim C9. For a consistent collation (\<^verbatim>\<open>localeCompare\<close> is one), the keys
  \<^verbatim>\<open>checkTheme\<close> tests are the keys of the chosen table, sorted by descending length,
  keys of one length in the order of the collation; the empty key, when there is one, is
  the last. The key found first for a name in this order matches the name, and no key of
  the table that matches the name is longer. The bucket of each key holds, in the order of
  the store, the visible entries for which that key is the first that matches; the
  invalid list holds the visible entries that no key matches. In particular, with an
  empty key in the table, every visible entry that matches no other key is in the bucket of
  the empty key, and the invalid list is empty.
\<close>

theorem checkTheme_first_match_wins:
  assumes total: "\<And>a b. localeCompare a b \<le> 0 \<or> localeCompare b a \<le> 0"
    and trans: "\<And>a b c. localeCompare a b \<le> 0 \<Longrightarrow> localeCompare b c \<le> 0
                  \<Longrightarrow> localeCompare a c \<le> 0"
  shows
    "(let themes = (if isPrefix then prefixes s else suffixes s);
          keys = sortThemeKeys localeCompare (map fst themes);
          r = checkTheme localeCompare s isPrefix
      in set keys = fst ` set themes
         \<and> sorted_wrt (\<lambda>a b. length b < length a
                              \<or> (length a = length b \<and> localeCompare a b \<le> 0)) keys
         \<and> (distinct (map fst themes) \<and> [] \<in> set keys \<longrightarrow> last keys = [])
         \<and> (\<forall>n k. find (\<lambda>k'. matchesKey isPrefix k' n) keys = Some k \<longrightarrow>
                k \<in> set keys \<and> matchesKey isPrefix k n
                \<and> (\<forall>k'\<in>set keys. matchesKey isPrefix k' n \<longrightarrow> length k' \<le> length k))
         \<and> (\<forall>k. map_of (valid r) k =
                (if k \<in> set keys
                 then Some (filter (\<lambda>n. visibleEntry (entries s) n
                                        \<and> find (\<lambda>k'. matchesKey isPrefix k' n) keys = Some k)
                              (map fst (entries s)))
                 else None))
         \<and> invalid r = filter (\<lambda>n. visibleEntry (entries s) n
                                   \<and> (\<forall>k\<in>set keys. \<not> matchesKey isPrefix k n))
                          (map fst (entries s))
         \<and> ([] \<in> set keys \<longrightarrow> invalid r = []))"
proof -
  define themes where "themes = (if isPrefix then prefixes s else suffixes s)"
  define keys where "keys = sortThemeKeys localeCompare (map fst themes)"
  define r where "r = checkTheme localeCompare s isPrefix"
  define v0 where "v0 = fold (\<lambda>key v. AList.update key ([] :: string list) v) keys []"
  let ?R = "\<lambda>a b. length b < length a \<or> (length a = length b \<and> localeCompare a b \<le> 0)"
  let ?loop = "filterLoop (themeCallback isPrefix keys) (entries s) (map fst (entries s)) v0"
  have r: "valid r = snd ?loop" "invalid r = fst ?loop"
    by (simp_all add: r_def checkTheme_unfold Let_def keys_def themes_def v0_def)
  have c1: "set keys = fst ` set themes"
    by (simp add: keys_def sortThemeKeys_def set_arraySort)
  have c2: "sorted_wrt ?R keys"
    unfolding keys_def by (rule sorted_sortThemeKeys [OF total trans])
  have len: "sorted_wrt (\<lambda>a b. length b \<le> length a) keys"
    using c2 by (rule sorted_length_weaken)
  have c3: "distinct (map fst themes) \<and> [] \<in> set keys \<longrightarrow> last keys = []"
  proof
    assume a: "distinct (map fst themes) \<and> [] \<in> set keys"
    then have "distinct keys" by (simp add: keys_def sortThemeKeys_def distinct_arraySort)
    with len a show "last keys = []" by (intro empty_key_last) simp_all
  qed
  have c4: "\<forall>n k. find (\<lambda>k'. matchesKey isPrefix k' n) keys = Some k \<longrightarrow>
                k \<in> set keys \<and> matchesKey isPrefix k n
                \<and> (\<forall>k'\<in>set keys. matchesKey isPrefix k' n \<longrightarrow> length k' \<le> length k)"
    using find_longest [OF len] by blast
  have c5: "\<forall>k. map_of (valid r) k =
                (if k \<in> set keys
                 then Some (filter (\<lambda>n. visibleEntry (entries s) n
                                        \<and> find (\<lambda>k'. matchesKey isPrefix k' n) keys = Some k)
                              (map fst (entries s)))
                 else None)"
  proof
    fix k
    have "map_of v0 k = (if k \<in> set keys then Some [] else None)"
      unfolding v0_def by (simp add: valid_init)
    with filterLoop_theme [of isPrefix keys "entries s" "map fst (entries s)" v0 k]
    show "map_of (valid r) k =
                (if k \<in> set keys
                 then Some (filter (\<lambda>n. visibleEntry (entries s) n
                                        \<and> find (\<lambda>k'. matchesKey isPrefix k' n) keys = Some k)
                              (map fst (entries s)))
                 else None)"
      by (simp add: r themeLoop_find)
  qed
  have c6: "invalid r = filter (\<lambda>n. visibleEntry (entries s) n
                                   \<and> (\<forall>k\<in>set keys. \<not> matchesKey isPrefix k n))
                          (map fst (entries s))"
    using filterLoop_theme [of isPrefix keys "entries s" "map fst (entries s)" v0]
    by (simp add: r themeLoop_find find_None_iff Ball_def)
  have c7: "[] \<in> set keys \<longrightarrow> invalid r = []"
  proof
    assume "[] \<in> set keys"
    moreover have "matchesKey isPrefix [] n" for n by (simp add: matchesKey_def)
    ultimately show "invalid r = []" unfolding c6 by (auto simp: filter_empty_conv)
  qed
  from c1 c2 c3 c4 c5 c6 c7 show ?thesis
    unfolding Let_def themes_def [symmetric] keys_def [symmetric] r_def [symmetric] by blast
qed

theorem checkTheme_first_match_wins_witness:
  "map_of (valid (checkTheme (\<lambda>a b. 0)
       \<lparr>prefix = ''set'',
        entries = [(''mdi-home'', Icon ''<g/>'' Map.empty [] []),
                   (''home'', Icon ''<path/>'' Map.empty [] [])],
        info = None, heap = [], categories = [],
        prefixes = [(''mdi'', ''Material''), ('''', ''Other'')], suffixes = []\<rparr> True))
     ''mdi'' = Some [''mdi-home'']
   \<and> map_of (valid (checkTheme (\<lambda>a b. 0)
       \<lparr>prefix = ''set'',
        entries = [(''mdi-home'', Icon ''<g/>'' Map.empty [] []),
                   (''home'', Icon ''<path/>'' Map.empty [] [])],
        info = None, heap = [], categories = [],
        prefixes = [(''mdi'', ''Material''), ('''', ''Other'')], suffixes = []\<rparr> True))
     '''' = Some [''home'']
   \<and> invalid (checkTheme (\<lambda>a b. 0)
       \<lparr>prefix = ''set'',
        entries = [(''mdi-home'', Icon ''<g/>'' Map.empty [] []),
                   (''home'', Icon ''<path/>'' Map.empty [] [])],
        info = None, heap = [], categories = [],
        prefixes = [(''mdi'', ''Material''), ('''', ''Other'')], suffixes = []\<rparr> True) = []"
proof -
  let ?s = "\<lparr>prefix = ''set'',
        entries = [(''mdi-home'', Icon ''<g/>'' Map.empty [] []),
                   (''home'', Icon ''<path/>'' Map.empty [] [])],
        info = None, heap = [], categories = [],
        prefixes = [(''mdi'', ''Material''), ('''', ''Other'')], suffixes = []\<rparr>"
  let ?lc = "\<lambda>(a :: string) (b :: string). (0 :: int)"
  have keys: "sortThemeKeys ?lc (map fst (prefixes ?s)) = [''mdi'', '''']"
    by (simp add: sortThemeKeys_def arraySort_def compareKeys_def)
  have m1: "matchesKey True ''mdi'' ''mdi-home''" "matchesKey True '''' ''mdi-home''"
    "\<not> matchesKey True ''mdi'' ''home''" "matchesKey True '''' ''home''"
    by (simp_all add: matchesKey_def)
  have vis:
    "visibleEntry [(''mdi-home'', Icon ''<g/>'' Map.empty [] []),
                   (''home'', Icon ''<path/>'' Map.empty [] [])] ''mdi-home''"
    "visibleEntry [(''mdi-home'', Icon ''<g/>'' Map.empty [] []),
                   (''home'', Icon ''<path/>'' Map.empty [] [])] ''home''"
    by (simp_all add: visibleEntry_def truthyOpt_def)
  have t: "?lc a b \<le> 0 \<or> ?lc b a \<le> 0" for a b by simp
  have tr: "?lc a b \<le> 0 \<Longrightarrow> ?lc b c \<le> 0 \<Longrightarrow> ?lc a c \<le> 0" for a b c by simp
  note T = checkTheme_first_match_wins [of ?lc True ?s, OF t tr, unfolded Let_def if_True keys]
  note buckets = T [THEN conjunct2, THEN conjunct2, THEN conjunct2, THEN conjunct2,
      THEN conjunct1, rule_format]
  note catch_all = T [THEN conjunct2, THEN conjunct2, THEN conjunct2, THEN conjunct2,
      THEN conjunct2, THEN conjunct2]
  have b1: "map_of (valid (checkTheme ?lc ?s True)) ''mdi'' = Some [''mdi-home'']"
    using buckets [of "''mdi''"] by (simp add: m1 vis)
  have b2: "map_of (valid (checkTheme ?lc ?s True)) '''' = Some [''home'']"
    using buckets [of "''''"] by (simp add: m1 vis)
  have b3: "invalid (checkTheme ?lc ?s True) = []"
    using catch_all by simp
  from b1 b2 b3 show ?thesis by blast
qed

end
